theory Spec2Isabelle
  imports Complex_Main
begin

section \<open>JavaScript strings\<close>

text \<open>
  A JavaScript string is a sequence of UTF-16 code units; \<open>.length\<close> counts code units.
  A string is modelled as the list of its code-unit values.
\<close>

type_synonym jsstring = "nat list"

definition str :: "string \<Rightarrow> jsstring" where
  "str s = map of_char s"

abbreviation NL :: nat where "NL \<equiv> 10"
abbreviation TAB :: nat where "TAB \<equiv> 9"
abbreviation SP :: nat where "SP \<equiv> 32"
abbreviation DOT :: nat where "DOT \<equiv> 46"
abbreviation DASH :: nat where "DASH \<equiv> 45"
abbreviation USCORE :: nat where "USCORE \<equiv> 95"

text \<open>
  The characters matched by \<open>\s\<close> in a regular expression and stripped by
  \<open>String.prototype.trim\<close>: ECMAScript WhiteSpace and LineTerminator.
\<close>

definition is_ws :: "nat \<Rightarrow> bool" where
  "is_ws c \<longleftrightarrow>
     (9 \<le> c \<and> c \<le> 13) \<or> c = 32 \<or> c = 160 \<or> c = 5760 \<or> (8192 \<le> c \<and> c \<le> 8202) \<or>
     c = 8232 \<or> c = 8233 \<or> c = 8239 \<or> c = 8287 \<or> c = 12288 \<or> c = 65279"

definition trim :: "jsstring \<Rightarrow> jsstring" where
  "trim s = rev (dropWhile is_ws (rev (dropWhile is_ws s)))"

text \<open>\<open>s.split("\n")\<close>: the pieces between line feeds; the empty string gives one empty piece.\<close>

fun split_nl :: "jsstring \<Rightarrow> jsstring list" where
  "split_nl [] = [[]]"
| "split_nl (c # cs) =
     (if c = NL then [] # split_nl cs
      else (case split_nl cs of l # ls \<Rightarrow> (c # l) # ls | [] \<Rightarrow> [[c]]))"

text \<open>\<open>pieces.join(sep)\<close>.\<close>

fun join :: "jsstring \<Rightarrow> jsstring list \<Rightarrow> jsstring" where
  "join sep [] = []"
| "join sep [l] = l"
| "join sep (l # l' # ls) = l @ sep @ join sep (l' # ls)"

section \<open>Text cleaner (lib/utils/text-cleaning)\<close>

text \<open>
  \<open>s.replace(/[class]{n,}/g, rep)\<close>: scanning from the left, a maximal run of characters of
  the class is replaced by \<open>rep\<close> when it has at least \<open>n\<close> characters and is kept otherwise
  (a greedy quantifier takes the whole run; at a later position inside a run that was too
  short the rest of the run is shorter still).
\<close>

function replace_runs :: "(nat \<Rightarrow> bool) \<Rightarrow> nat \<Rightarrow> jsstring \<Rightarrow> jsstring \<Rightarrow> jsstring" where
  "replace_runs p n rep [] = []"
| "replace_runs p n rep (c # cs) =
     (if p c then
        (if n \<le> Suc (length (takeWhile p cs)) then rep else c # takeWhile p cs)
          @ replace_runs p n rep (dropWhile p cs)
      else c # replace_runs p n rep cs)"
  by pat_completeness auto
termination
  by (relation "measure (\<lambda>(p, n, rep, cs). length cs)")
     (auto simp: length_dropWhile_le less_Suc_eq_le)

definition is_space_tab :: "nat \<Rightarrow> bool" where
  "is_space_tab c \<longleftrightarrow> c = SP \<or> c = TAB"

text \<open>\<open>[\x00-\x08\x0B-\x0C\x0E-\x1F\x7F]\<close>\<close>

definition is_control :: "nat \<Rightarrow> bool" where
  "is_control c \<longleftrightarrow> c \<le> 8 \<or> c = 11 \<or> c = 12 \<or> (14 \<le> c \<and> c \<le> 31) \<or> c = 127"

text \<open>\<open>[\u200B-\u200D\uFEFF]\<close>\<close>

definition is_zero_width :: "nat \<Rightarrow> bool" where
  "is_zero_width c \<longleftrightarrow> (8203 \<le> c \<and> c \<le> 8205) \<or> c = 65279"

text \<open>
  The character class of step 7, read as the UTF-8 text of the source file: its members are
  the code points U+0432, U+0496, U+00BB, U+04B3, U+2026, U+04B6, U+2014, U+04AE, U+04E2,
  U+04B8, U+2013, U+0456, U+0406, U+04AA, U+0458, U+00A0 and U+040E.
\<close>

definition decorative :: "nat list" where
  "decorative = [1074, 1174, 187, 1203, 8230, 1206, 8212, 1198, 1250, 1208, 8211, 1110, 1030,
                 1194, 1112, 160, 1038]"

definition is_decorative :: "nat \<Rightarrow> bool" where
  "is_decorative c \<longleftrightarrow> c \<in> set decorative"

text \<open>
  Step 8 as the source file has it: the class holds the ASCII quote itself
  (\<open>/["]/g\<close> to \<open>"\<close>, \<open>/[']/g\<close> to \<open>'\<close>).
\<close>

definition normalize_quotes :: "jsstring \<Rightarrow> jsstring" where
  "normalize_quotes s = map (\<lambda>c. if c = 39 then 39 else c) (map (\<lambda>c. if c = 34 then 34 else c) s)"

text \<open>Step 9: \<open>split("\n").map(line => line.trim()).join("\n")\<close>.\<close>

definition trim_lines :: "jsstring \<Rightarrow> jsstring" where
  "trim_lines s = join [NL] (map trim (split_nl s))"

text \<open>
  Step 10: \<open>s.replace(/\n\s*\n\s*\n/g, "\n\n")\<close>. At a line feed the pattern matches when the
  whitespace run after it holds at least two more line feeds; both \<open>\s*\<close> are greedy, so the
  match ends with the last line feed of that run. Elsewhere the character is kept.
\<close>

definition last_nl_end :: "jsstring \<Rightarrow> nat" where
  "last_nl_end run = length run - length (takeWhile (\<lambda>c. c \<noteq> NL) (rev run))"

function collapse_blank_lines :: "jsstring \<Rightarrow> jsstring" where
  "collapse_blank_lines [] = []"
| "collapse_blank_lines (c # cs) =
     (if c = NL \<and> 2 \<le> count_list (takeWhile is_ws cs) NL
      then [NL, NL] @ collapse_blank_lines (drop (last_nl_end (takeWhile is_ws cs)) cs)
      else c # collapse_blank_lines cs)"
  by pat_completeness auto
termination
  by (relation "measure length") auto

definition cleanTextForEmbedding :: "jsstring \<Rightarrow> jsstring" where
  "cleanTextForEmbedding text =
     (if text = [] then []
      else
        let cleaned = text;
            cleaned = replace_runs is_space_tab 1 [SP] cleaned;
            cleaned = replace_runs (\<lambda>c. c = NL) 3 [NL, NL] cleaned;
            cleaned = replace_runs is_space_tab 1 [SP] cleaned;
            cleaned = filter (\<lambda>c. \<not> is_control c) cleaned;
            cleaned = filter (\<lambda>c. \<not> is_zero_width c) cleaned;
            cleaned = replace_runs (\<lambda>c. c = DOT) 4 [DOT, DOT, DOT] cleaned;
            cleaned = replace_runs (\<lambda>c. c = DASH) 3 [DASH, DASH] cleaned;
            cleaned = replace_runs (\<lambda>c. c = USCORE) 3 [USCORE, USCORE] cleaned;
            cleaned = filter (\<lambda>c. \<not> is_decorative c) cleaned;
            cleaned = normalize_quotes cleaned;
            cleaned = trim_lines cleaned;
            cleaned = collapse_blank_lines cleaned;
            cleaned = trim cleaned
        in cleaned)"

text \<open>\<open>cleaned.replace(/[?!]{3,}/g, (match) => match.slice(0, 2))\<close>\<close>

function replace_marks :: "jsstring \<Rightarrow> jsstring" where
  "replace_marks [] = []"
| "replace_marks (c # cs) =
     (if c = 63 \<or> c = 33 then
        (if 3 \<le> Suc (length (takeWhile (\<lambda>c. c = 63 \<or> c = 33) cs))
         then take 2 (c # takeWhile (\<lambda>c. c = 63 \<or> c = 33) cs)
         else c # takeWhile (\<lambda>c. c = 63 \<or> c = 33) cs)
          @ replace_marks (dropWhile (\<lambda>c. c = 63 \<or> c = 33) cs)
      else c # replace_marks cs)"
  by pat_completeness auto
termination
  by (relation "measure length") (auto simp: length_dropWhile_le less_Suc_eq_le)

definition cleanQueryText :: "jsstring \<Rightarrow> jsstring" where
  "cleanQueryText text =
     (if text = [] then [] else replace_marks (cleanTextForEmbedding text))"

subsection \<open>Notions used to reason about the cleaner\<close>

text \<open>A boundary that does not cut a run.\<close>

definition run_boundary :: "(nat \<Rightarrow> bool) \<Rightarrow> jsstring \<Rightarrow> jsstring \<Rightarrow> bool" where
  "run_boundary p xs ys \<longleftrightarrow> xs = [] \<or> ys = [] \<or> \<not> p (last xs) \<or> \<not> p (hd ys)"

text \<open>A string that holds none of the characters the cleaner removes.\<close>

definition plain :: "jsstring \<Rightarrow> bool" where
  "plain s \<longleftrightarrow> (\<forall>c\<in>set s. \<not> is_control c \<and> \<not> is_zero_width c \<and> \<not> is_decorative c)"

text \<open>The run-collapsing steps of the cleaner, in its order, without the removals.\<close>

definition collapse_runs :: "jsstring \<Rightarrow> jsstring" where
  "collapse_runs s =
     replace_runs (\<lambda>c. c = USCORE) 3 [USCORE, USCORE]
       (replace_runs (\<lambda>c. c = DASH) 3 [DASH, DASH]
         (replace_runs (\<lambda>c. c = DOT) 4 [DOT, DOT, DOT]
           (replace_runs is_space_tab 1 [SP]
             (replace_runs (\<lambda>c. c = NL) 3 [NL, NL]
               (replace_runs is_space_tab 1 [SP] s)))))"

text \<open>A run class lies inside the whitespace characters or outside them.\<close>

definition ws_class :: "(nat \<Rightarrow> bool) \<Rightarrow> bool" where
  "ws_class p \<longleftrightarrow> (\<forall>c. p c \<longrightarrow> is_ws c) \<or> (\<forall>c. p c \<longrightarrow> \<not> is_ws c)"

text \<open>
  No whitespace other than a line feed stands next to a line feed (\<open>tight\<close>), and the
  string neither starts nor ends with such whitespace (\<open>ends_ok\<close>): the lines are trimmed.
\<close>

definition tight_pair :: "nat \<Rightarrow> nat \<Rightarrow> bool" where
  "tight_pair a b \<longleftrightarrow> (a = NL \<and> is_ws b \<longrightarrow> b = NL) \<and> (b = NL \<and> is_ws a \<longrightarrow> a = NL)"

definition tight :: "jsstring \<Rightarrow> bool" where
  "tight s \<longleftrightarrow> successively tight_pair s"

definition ends_ok :: "jsstring \<Rightarrow> bool" where
  "ends_ok s \<longleftrightarrow>
     s = [] \<or> ((hd s = NL \<or> \<not> is_ws (hd s)) \<and> (last s = NL \<or> \<not> is_ws (last s)))"

section \<open>Errors, JSON values and HTTP responses\<close>

text \<open>
  A thrown value is either an \<open>Error\<close> object (of any subclass) with its message or some
  other value. A function that may throw returns \<open>js_error + 'a\<close>, \<open>Inl\<close> being the throw.
\<close>

datatype js_error = Error jsstring | Thrown

definition bind_err :: "js_error + 'a \<Rightarrow> ('a \<Rightarrow> js_error + 'b) \<Rightarrow> js_error + 'b" where
  "bind_err m f = (case m of Inl e \<Rightarrow> Inl e | Inr x \<Rightarrow> f x)"

text \<open>Values as \<open>response.json()\<close> yields them, and \<open>undefined\<close> for a missing property.\<close>

datatype jsval =
    JUndefined
  | JNull
  | JBool bool
  | JNum real
  | JStr jsstring
  | JArr "jsval list"
  | JObj "(string \<times> jsval) list"

text \<open>
  Reading the property \<open>k\<close>: a TypeError on \<open>undefined\<close> and \<open>null\<close>, with the message the
  engine gives it, the stored value on an object, \<open>undefined\<close> otherwise (none of the names
  read in this program is a built-in property).
\<close>

fun get_prop :: "jsval \<Rightarrow> string \<Rightarrow> js_error + jsval" where
  "get_prop JUndefined k =
     Inl (Error (str ''Cannot read properties of undefined (reading '' @ [39] @ str k @ [39] @ str '')''))"
| "get_prop JNull k =
     Inl (Error (str ''Cannot read properties of null (reading '' @ [39] @ str k @ [39] @ str '')''))"
| "get_prop (JObj kvs) k = Inr (case map_of kvs k of Some v \<Rightarrow> v | None \<Rightarrow> JUndefined)"
| "get_prop v k = Inr JUndefined"

fun truthy :: "jsval \<Rightarrow> bool" where
  "truthy JUndefined = False"
| "truthy JNull = False"
| "truthy (JBool b) = b"
| "truthy (JNum x) = (x \<noteq> 0)"
| "truthy (JStr s) = (s \<noteq> [])"
| "truthy (JArr vs) = True"
| "truthy (JObj kvs) = True"

fun isArray :: "jsval \<Rightarrow> bool" where
  "isArray (JArr vs) = True"
| "isArray v = False"

fun elements :: "jsval \<Rightarrow> jsval list" where
  "elements (JArr vs) = vs"
| "elements v = []"

text \<open>\<open>xs[0]\<close>: \<open>undefined\<close> on an empty array.\<close>

definition first_element :: "jsval list \<Rightarrow> jsval" where
  "first_element vs = (case vs of [] \<Rightarrow> JUndefined | v # _ \<Rightarrow> v)"

text \<open>
  \<open>v.trim()\<close>, where \<open>callee\<close> is the source text of \<open>v\<close>: defined on strings only; a
  TypeError on every other value, with the message the engine gives it.
\<close>

fun call_trim :: "string \<Rightarrow> jsval \<Rightarrow> js_error + jsstring" where
  "call_trim callee (JStr s) = Inr (trim s)"
| "call_trim callee JUndefined =
     Inl (Error (str ''Cannot read properties of undefined (reading '' @ [39] @ str ''trim'' @ [39] @ str '')''))"
| "call_trim callee JNull =
     Inl (Error (str ''Cannot read properties of null (reading '' @ [39] @ str ''trim'' @ [39] @ str '')''))"
| "call_trim callee v = Inl (Error (str callee @ str ''.trim is not a function''))"

text \<open>\<open>!s\<close> for an optional string (an environment variable, a user id).\<close>

definition is_set :: "jsstring option \<Rightarrow> bool" where
  "is_set v = (case v of None \<Rightarrow> False | Some s \<Rightarrow> s \<noteq> [])"

text \<open>Decimal rendering of a non-negative integer.\<close>

fun show_nat :: "nat \<Rightarrow> jsstring" where
  "show_nat n = (if n < 10 then [48 + n] else show_nat (n div 10) @ [48 + n mod 10])"

text \<open>
  What \<open>fetch\<close> resolves to: \<open>response.json()\<close> throws on a body that is not JSON.
  A rejected \<open>fetch\<close> (network error) is \<open>Inl\<close>.
\<close>

datatype http_response =
  Response (ok: bool) (status: nat) (statusText: jsstring) (body_text: jsstring)
           (body_json: "js_error + jsval")

section \<open>Embedding client (lib/ai/embeddings.ts)\<close>

datatype emb_input = Single jsstring | Batch "jsstring list"

record emb_request =
  emb_key :: jsstring
  emb_model :: jsstring
  emb_input :: emb_input
  emb_dimensions :: nat

text \<open>
  The remote endpoint: its answer may depend on the requests it has received before.
\<close>

type_synonym emb_endpoint = "emb_request list \<Rightarrow> emb_request \<Rightarrow> js_error + http_response"

definition api_error :: "http_response \<Rightarrow> bool \<Rightarrow> js_error" where
  "api_error r with_body =
     Error (str ''ZhipuAI API error: '' @ show_nat (status r) @ [SP] @ statusText r
            @ (if with_body then str '' - '' @ body_text r else []))"

definition invalid_response :: js_error where
  "invalid_response = Error (str ''Invalid response from ZhipuAI API'')"

definition generateEmbedding ::
  "jsstring option \<Rightarrow> (emb_request \<Rightarrow> js_error + http_response) \<Rightarrow> jsstring \<Rightarrow> js_error + jsval" where
  "generateEmbedding apiKey fetch text =
     (if \<not> is_set apiKey then Inl (Error (str ''ZHIPUAI_API_KEY environment variable is not set''))
      else
        bind_err (fetch \<lparr>emb_key = the apiKey, emb_model = str ''embedding-3'',
                         emb_input = Single text, emb_dimensions = 1024\<rparr>) (\<lambda>response.
        if \<not> ok response then Inl (api_error response True)
        else
          bind_err (body_json response) (\<lambda>data.
          bind_err (get_prop data ''data'') (\<lambda>d.
          if \<not> truthy d \<or> \<not> isArray d \<or> length (elements d) = 0 then Inl invalid_response
          else get_prop (first_element (elements d)) ''embedding''))))"

definition BATCH_SIZE :: nat where
  "BATCH_SIZE = 64"

text \<open>The request body of one batch.\<close>

definition batch_request :: "jsstring \<Rightarrow> jsstring list \<Rightarrow> emb_request" where
  "batch_request key batch =
     \<lparr>emb_key = key, emb_model = str ''embedding-3'', emb_input = Batch batch,
      emb_dimensions = 1024\<rparr>"

text \<open>\<open>data.data.map((item) => item.embedding)\<close>: the first item that throws ends the map.\<close>

fun map_embedding :: "jsval list \<Rightarrow> js_error + jsval list" where
  "map_embedding [] = Inr []"
| "map_embedding (item # items) =
     bind_err (get_prop item ''embedding'') (\<lambda>e.
     bind_err (map_embedding items) (\<lambda>es. Inr (e # es)))"

text \<open>
  The loop of \<open>generateEmbeddings\<close>, from index \<open>i\<close> with the vectors collected so far; the
  requests sent are recorded in order. \<open>texts.slice(i, i + BATCH_SIZE)\<close> is
  \<open>take BATCH_SIZE (drop i texts)\<close>.
\<close>

function embeddings_loop ::
  "jsstring \<Rightarrow> emb_endpoint \<Rightarrow> jsstring list \<Rightarrow> nat \<Rightarrow> jsval list \<Rightarrow> emb_request list
     \<Rightarrow> emb_request list \<times> (js_error + jsval list)" where
  "embeddings_loop key endpoint texts i allEmbeddings sent =
     (if i < length texts then
        (let batch = take BATCH_SIZE (drop i texts);
             request = batch_request key batch;
             sent' = sent @ [request]
         in case endpoint sent request of
              Inl e \<Rightarrow> (sent', Inl e)
            | Inr response \<Rightarrow>
                if \<not> ok response then (sent', Inl (api_error response True))
                else
                  (case bind_err (body_json response) (\<lambda>data.
                        bind_err (get_prop data ''data'') (\<lambda>d.
                        if \<not> truthy d \<or> \<not> isArray d then Inl invalid_response
                        else map_embedding (elements d))) of
                     Inl e \<Rightarrow> (sent', Inl e)
                   | Inr batchEmbeddings \<Rightarrow>
                       embeddings_loop key endpoint texts (i + BATCH_SIZE)
                         (allEmbeddings @ batchEmbeddings) sent'))
      else (sent, Inr allEmbeddings))"
  by pat_completeness auto
termination
  by (relation "measure (\<lambda>(key, endpoint, texts, i, allEmbeddings, sent). length texts - i)")
     (auto simp: BATCH_SIZE_def)

definition generateEmbeddings ::
  "jsstring option \<Rightarrow> emb_endpoint \<Rightarrow> jsstring list \<Rightarrow> emb_request list \<times> (js_error + jsval list)" where
  "generateEmbeddings apiKey endpoint texts =
     (if \<not> is_set apiKey
      then ([], Inl (Error (str ''ZHIPUAI_API_KEY environment variable is not set'')))
      else embeddings_loop (the apiKey) endpoint texts 0 [] [])"

text \<open>
  The partition the specification describes: consecutive windows of \<open>n\<close> elements, the last
  one holding what is left.
\<close>

function windows :: "nat \<Rightarrow> 'a list \<Rightarrow> 'a list list" where
  "windows n xs = (if n = 0 \<or> xs = [] then [] else take n xs # windows n (drop n xs))"
  by pat_completeness auto
termination
  by (relation "measure (\<lambda>(n, xs). length xs)") auto

text \<open>
  An endpoint answer with one vector per input, in request order: \<open>vec\<close> gives the vector
  of a text.
\<close>

definition in_order :: "(jsstring \<Rightarrow> jsval) \<Rightarrow> jsstring list \<Rightarrow> http_response \<Rightarrow> bool" where
  "in_order vec batch response \<longleftrightarrow>
     ok response \<and>
     (\<exists>kvs items. body_json response = Inr (JObj kvs) \<and> map_of kvs ''data'' = Some (JArr items)
        \<and> length items = length batch
        \<and> (\<forall>j<length batch. \<exists>fields. items ! j = JObj fields
              \<and> map_of fields ''embedding'' = Some (vec (batch ! j))))"

section \<open>Chat messages\<close>

datatype msg_role = User | Assistant | System | OtherRole jsstring

datatype part = TextPart jsstring | OtherPart

record ChatMessage =
  msg_id :: jsstring
  role :: msg_role
  parts :: "part list"

text \<open>
  Modelled from the spec: \<open>getTextFromMessage\<close> (lib/utils) is not among the sources. The
  core "reads flattened text from a message": the text parts, in order, joined.
\<close>

definition getTextFromMessage :: "ChatMessage \<Rightarrow> jsstring" where
  "getTextFromMessage m = concat (map (\<lambda>p. case p of TextPart t \<Rightarrow> t | OtherPart \<Rightarrow> []) (parts m))"

section \<open>Query rewriter (app/(chat)/api/chat/query-rewriter.ts)\<close>

record QueryRewriterResult =
  originalQuery :: jsstring
  rewrittenQuery :: jsstring
  success :: bool
  error :: "jsstring option"

text \<open>
  The chat-completion request. The two prompts are fixed instruction text around the recent
  history and the current query; the request is recorded by these two.
\<close>

record chat_request =
  chat_key :: jsstring
  chat_model :: jsstring
  chat_history :: "(msg_role \<times> jsstring) list"
  chat_query :: jsstring
  chat_max_tokens :: nat

text \<open>\<open>xs.slice(k)\<close>: a negative \<open>k\<close> counts from the end, \<open>slice(-0)\<close> is the whole array.\<close>

definition slice_from :: "int \<Rightarrow> 'a list \<Rightarrow> 'a list" where
  "slice_from k xs = (if k < 0 then drop (nat (int (length xs) + k)) xs else drop (nat k) xs)"

definition recentHistory :: "ChatMessage list \<Rightarrow> int \<Rightarrow> (msg_role \<times> jsstring) list" where
  "recentHistory conversationHistory maxHistoryMessages =
     filter (\<lambda>(r, content). length (trim content) > 0)
       (map (\<lambda>msg. (role msg, getTextFromMessage msg))
         (filter (\<lambda>msg. role msg = User \<or> role msg = Assistant)
           (slice_from (- maxHistoryMessages * 2) conversationHistory)))"

definition rewrite_request :: "jsstring \<Rightarrow> jsstring \<Rightarrow> ChatMessage list \<Rightarrow> int \<Rightarrow> chat_request" where
  "rewrite_request key currentQuery conversationHistory maxHistoryMessages =
     \<lparr>chat_key = key, chat_model = str ''GLM-4-Flash'',
      chat_history = recentHistory conversationHistory maxHistoryMessages,
      chat_query = currentQuery, chat_max_tokens = 200\<rparr>"

text \<open>
  From the parsed response to \<open>data.choices[0].message.content.trim()\<close>, with the check of
  \<open>data.choices\<close> before it.
\<close>

definition response_text :: "jsval \<Rightarrow> js_error + jsstring" where
  "response_text data =
     bind_err (get_prop data ''choices'') (\<lambda>choices.
     if \<not> truthy choices \<or> \<not> isArray choices \<or> length (elements choices) = 0
     then Inl invalid_response
     else
       bind_err (get_prop (first_element (elements choices)) ''message'') (\<lambda>message.
       bind_err (get_prop message ''content'') (\<lambda>content.
       call_trim ''data.choices[0].message.content'' content)))"

text \<open>The body of the \<open>try\<close> block.\<close>

definition rewrite_attempt ::
  "jsstring \<Rightarrow> (chat_request \<Rightarrow> js_error + http_response) \<Rightarrow> jsstring \<Rightarrow> ChatMessage list \<Rightarrow> int
     \<Rightarrow> js_error + QueryRewriterResult" where
  "rewrite_attempt key fetch currentQuery conversationHistory maxHistoryMessages =
     bind_err (fetch (rewrite_request key currentQuery conversationHistory maxHistoryMessages))
       (\<lambda>response.
     if \<not> ok response then Inl (api_error response False)
     else
       bind_err (body_json response) (\<lambda>data.
       bind_err (response_text data) (\<lambda>rewritten.
       if length rewritten = 0 then
         Inr \<lparr>originalQuery = currentQuery, rewrittenQuery = currentQuery, success = False,
              error = Some (str ''Empty rewritten query'')\<rparr>
       else if length rewritten > length currentQuery * 5 then
         Inr \<lparr>originalQuery = currentQuery, rewrittenQuery = currentQuery, success = False,
              error = Some (str ''Rewritten query too long'')\<rparr>
       else
         Inr \<lparr>originalQuery = currentQuery, rewrittenQuery = rewritten, success = True,
              error = None\<rparr>)))"

definition rewriteQuery ::
  "jsstring option \<Rightarrow> (chat_request \<Rightarrow> js_error + http_response) \<Rightarrow> jsstring \<Rightarrow> ChatMessage list \<Rightarrow> int
     \<Rightarrow> QueryRewriterResult" where
  "rewriteQuery apiKey fetch currentQuery conversationHistory maxHistoryMessages =
     (if \<not> is_set apiKey then
        \<lparr>originalQuery = currentQuery, rewrittenQuery = currentQuery, success = False,
         error = Some (str ''ZHIPUAI_API_KEY not configured'')\<rparr>
      else
        case rewrite_attempt (the apiKey) fetch currentQuery conversationHistory maxHistoryMessages of
          Inr result \<Rightarrow> result
        | Inl e \<Rightarrow>
            \<lparr>originalQuery = currentQuery, rewrittenQuery = currentQuery, success = False,
             error = Some (case e of Error message \<Rightarrow> message | Thrown \<Rightarrow> str ''Unknown error'')\<rparr>)"

text \<open>
  The response the interface promises, \<open>{choices: [{message: {content}}]}\<close> with a string
  content: the content of a response of that shape, \<open>None\<close> for any other value.
\<close>

fun completion_content :: "jsval \<Rightarrow> jsstring option" where
  "completion_content (JObj kvs) =
     (case map_of kvs ''choices'' of
        Some (JArr (JObj choice # rest)) \<Rightarrow>
          (case map_of choice ''message'' of
             Some (JObj message) \<Rightarrow>
               (case map_of message ''content'' of Some (JStr s) \<Rightarrow> Some s | _ \<Rightarrow> None)
           | _ \<Rightarrow> None)
      | _ \<Rightarrow> None)"
| "completion_content v = None"

section \<open>Chunker (lib/utils/text-chunking.ts)\<close>

record TextChunk =
  chunk_text :: jsstring
  startIndex :: nat
  endIndex :: nat

record ChunkOptions =
  maxChunkSize :: nat
  overlap :: nat

text \<open>
  \<open>text.indexOf(pattern, from)\<close>: the least position not before \<open>from\<close> at which the pattern
  occurs, \<open>None\<close> for \<open>-1\<close>.
\<close>

fun index_of_aux :: "jsstring \<Rightarrow> jsstring \<Rightarrow> nat \<Rightarrow> nat option" where
  "index_of_aux pat [] k = (if pat = [] then Some k else None)"
| "index_of_aux pat (c # cs) k =
     (if take (length pat) (c # cs) = pat then Some k else index_of_aux pat cs (Suc k))"

definition indexOf :: "jsstring \<Rightarrow> jsstring \<Rightarrow> nat \<Rightarrow> nat option" where
  "indexOf s pat from = index_of_aux pat (drop from s) (min from (length s))"

text \<open>The loop over the pieces the splitter returned, with \<open>currentIndex\<close>.\<close>

fun locate_chunks :: "jsstring \<Rightarrow> jsstring list \<Rightarrow> nat \<Rightarrow> TextChunk list" where
  "locate_chunks s [] currentIndex = []"
| "locate_chunks s (chunkText # rest) currentIndex =
     (let trimmedText = trim chunkText in
      if length trimmedText = 0 then locate_chunks s rest currentIndex
      else
        case indexOf s trimmedText currentIndex of
          Some found \<Rightarrow>
            \<lparr>chunk_text = trimmedText, startIndex = found,
             endIndex = found + length trimmedText\<rparr>
              # locate_chunks s rest (found + length trimmedText)
        | None \<Rightarrow>
            \<lparr>chunk_text = trimmedText, startIndex = currentIndex,
             endIndex = currentIndex + length trimmedText\<rparr>
              # locate_chunks s rest (currentIndex + length trimmedText))"

text \<open>
  \<open>splitText\<close> stands for LangChain's \<open>RecursiveCharacterTextSplitter\<close> with the given chunk size
  and overlap (an external library): it may throw, and returns any list of strings.
\<close>

definition chunkText ::
  "(ChunkOptions \<Rightarrow> jsstring \<Rightarrow> js_error + jsstring list) \<Rightarrow> jsstring \<Rightarrow> ChunkOptions
     \<Rightarrow> js_error + TextChunk list" where
  "chunkText splitText s options =
     bind_err (splitText options s) (\<lambda>textChunks. Inr (locate_chunks s textChunks 0))"

section \<open>Document upload and indexing (app/(chat)/api/documents/upload/route.ts)\<close>

text \<open>\<open>xs.findIndex(p)\<close>, \<open>None\<close> for \<open>-1\<close>.\<close>

fun findIndex :: "('a \<Rightarrow> bool) \<Rightarrow> 'a list \<Rightarrow> nat option" where
  "findIndex p [] = None"
| "findIndex p (x # xs) = (if p x then Some 0 else map_option Suc (findIndex p xs))"

text \<open>
  \<open>chunks.filter((chunk, index, self) =>
     index === self.findIndex((c) => c.text.trim() === chunk.text.trim()))\<close>
\<close>

definition uniqueChunks :: "TextChunk list \<Rightarrow> TextChunk list" where
  "uniqueChunks chunks =
     map snd (filter (\<lambda>(index, chunk).
        findIndex (\<lambda>c. trim (chunk_text c) = trim (chunk_text chunk)) chunks = Some index)
       (enumerate 0 chunks))"

text \<open>
  The first chunk of each trimmed text, in order: the list against which the filter is compared
  (\<open>seen\<close> holds the trimmed texts met so far).
\<close>

fun keep_first :: "jsstring list \<Rightarrow> TextChunk list \<Rightarrow> TextChunk list" where
  "keep_first seen [] = []"
| "keep_first seen (c # cs) =
     (if trim (chunk_text c) \<in> set seen then keep_first seen cs
      else c # keep_first (trim (chunk_text c) # seen) cs)"

record upload_file =
  file_name :: jsstring
  file_size :: nat
  file_type :: jsstring

text \<open>
  What the handler reads from the request: the session's user id, whether the body is null,
  and the \<open>file\<close> entry of the form data (reading the form data may throw).
\<close>

record upload_request =
  session_user :: "jsstring option"
  body_is_null :: bool
  form_file :: "js_error + upload_file option"

record saved_document =
  doc_id :: jsstring
  doc_title :: jsstring
  doc_kind :: jsstring
  doc_content :: jsstring
  doc_userId :: jsstring

record embedding_row =
  row_documentId :: jsstring
  row_chunkIndex :: nat
  row_content :: jsstring
  row_embedding :: jsval

text \<open>
  The collaborators of the handler that are outside the sources (text extraction loaders, blob
  storage, the database queries, the splitter) or take the network (the embedding call): each
  may throw. \<open>development\<close> is \<open>process.env.NODE_ENV === "development"\<close>.
\<close>

record upload_services =
  extract_text :: "upload_file \<Rightarrow> js_error + jsstring"
  put_blob :: "upload_file \<Rightarrow> js_error + jsstring"
  new_uuid :: jsstring
  save_document :: "saved_document \<Rightarrow> js_error + unit"
  delete_embeddings :: "jsstring \<Rightarrow> js_error + unit"
  split_text :: "ChunkOptions \<Rightarrow> jsstring \<Rightarrow> js_error + jsstring list"
  embed_texts :: "jsstring list \<Rightarrow> js_error + jsval list"
  save_embeddings :: "embedding_row list \<Rightarrow> js_error + unit"
  development :: bool

record upload_body =
  up_success :: bool
  up_documentId :: jsstring
  up_title :: jsstring
  up_blobUrl :: "jsstring option"
  up_chunksIndexed :: nat
  up_message :: jsstring
  up_warning :: "jsstring option"
  up_error :: "jsstring option"

text \<open>
  \<open>NextResponse.json({error}, {status})\<close> is \<open>Failed\<close>; \<open>NextResponse.json(body)\<close>, with the
  default status 200, is \<open>Uploaded\<close>.
\<close>

datatype upload_response = Failed nat jsstring | Uploaded upload_body

fun response_status :: "upload_response \<Rightarrow> nat" where
  "response_status (Failed code message) = code"
| "response_status (Uploaded body) = 200"

definition endsWith :: "jsstring \<Rightarrow> jsstring \<Rightarrow> bool" where
  "endsWith s suffix \<longleftrightarrow>
     length suffix \<le> length s \<and> drop (length s - length suffix) s = suffix"

text \<open>
  \<open>filename.replace(/\.[^/.]+$/, "")\<close>: the extension after the last dot is removed when it is
  not empty and holds no slash.
\<close>

definition strip_extension :: "jsstring \<Rightarrow> jsstring" where
  "strip_extension name =
     (let ext = takeWhile (\<lambda>c. c \<noteq> DOT \<and> c \<noteq> 47) (rev name) in
      if ext \<noteq> [] \<and> length ext < length name \<and> rev name ! length ext = DOT
      then take (length name - length ext - 1) name
      else name)"

text \<open>\<open>blobUrl || undefined\<close>\<close>

definition or_undefined :: "jsstring option \<Rightarrow> jsstring option" where
  "or_undefined v = (if is_set v then v else None)"

text \<open>\<open>xs[i]\<close>: \<open>undefined\<close> out of range.\<close>

definition element_at :: "jsval list \<Rightarrow> nat \<Rightarrow> jsval" where
  "element_at xs i = (if i < length xs then xs ! i else JUndefined)"

text \<open>
  \<open>uniqueChunks.map((chunk) => ({...chunk, text: cleanTextForEmbedding(chunk.text)}))
     .filter((chunk) => chunk.text.length > 0)\<close>
\<close>

definition cleanedChunks :: "TextChunk list \<Rightarrow> TextChunk list" where
  "cleanedChunks unique =
     filter (\<lambda>chunk. length (chunk_text chunk) > 0)
       (map (\<lambda>chunk. chunk\<lparr>chunk_text := cleanTextForEmbedding (chunk_text chunk)\<rparr>) unique)"

text \<open>The rows handed to \<open>saveDocumentEmbeddings\<close>.\<close>

definition embedding_rows :: "jsstring \<Rightarrow> TextChunk list \<Rightarrow> jsval list \<Rightarrow> embedding_row list" where
  "embedding_rows documentId cleaned embeddings =
     map (\<lambda>(index, chunk).
            \<lparr>row_documentId = documentId, row_chunkIndex = index,
             row_content = chunk_text chunk, row_embedding = element_at embeddings index\<rparr>)
         (enumerate 0 cleaned)"

text \<open>The body of the inner \<open>try\<close> block: the indexing steps after the document is saved.\<close>

definition index_document ::
  "upload_services \<Rightarrow> jsstring \<Rightarrow> jsstring \<Rightarrow> jsstring \<Rightarrow> jsstring option
     \<Rightarrow> js_error + upload_response" where
  "index_document svc s documentId documentTitle blobUrl =
     bind_err (delete_embeddings svc documentId) (\<lambda>_.
     bind_err (chunkText (split_text svc) s \<lparr>maxChunkSize = 500, overlap = 50\<rparr>) (\<lambda>chunks.
     let unique = uniqueChunks chunks in
     if length unique = 0 then
       Inr (Uploaded \<lparr>up_success = True, up_documentId = documentId, up_title = documentTitle,
              up_blobUrl = or_undefined blobUrl, up_chunksIndexed = 0,
              up_message = str ''Document uploaded but content is too short to index'',
              up_warning = None, up_error = None\<rparr>)
     else
       let cleaned = cleanedChunks unique in
       if length cleaned = 0 then
         Inr (Uploaded \<lparr>up_success = True, up_documentId = documentId, up_title = documentTitle,
                up_blobUrl = or_undefined blobUrl, up_chunksIndexed = 0,
                up_message = str ''Document uploaded but content is empty after cleaning'',
                up_warning = None, up_error = None\<rparr>)
       else
         bind_err (embed_texts svc (map chunk_text cleaned)) (\<lambda>embeddings.
         bind_err (save_embeddings svc (embedding_rows documentId cleaned embeddings)) (\<lambda>_.
         Inr (Uploaded \<lparr>up_success = True, up_documentId = documentId, up_title = documentTitle,
                up_blobUrl = or_undefined blobUrl, up_chunksIndexed = length cleaned,
                up_message = str ''Successfully uploaded and indexed ''
                  @ show_nat (length cleaned) @ str '' chunks from '' @ [34]
                  @ documentTitle @ [34],
                up_warning = None, up_error = None\<rparr>)))))"

text \<open>From the creation of the document record to the end of the handler.\<close>

definition save_and_index ::
  "upload_services \<Rightarrow> jsstring \<Rightarrow> jsstring \<Rightarrow> jsstring \<Rightarrow> jsstring option \<Rightarrow> upload_response" where
  "save_and_index svc userId filename s blobUrl =
     (let documentId = new_uuid svc;
          documentTitle = strip_extension filename
      in case save_document svc \<lparr>doc_id = documentId, doc_title = documentTitle,
                doc_kind = str ''text'', doc_content = s, doc_userId = userId\<rparr> of
           Inl e \<Rightarrow> Failed 500 (str ''Failed to save document'')
         | Inr _ \<Rightarrow>
             (case index_document svc s documentId documentTitle blobUrl of
                Inr response \<Rightarrow> response
              | Inl e \<Rightarrow>
                  Uploaded \<lparr>up_success = True, up_documentId = documentId,
                    up_title = documentTitle, up_blobUrl = or_undefined blobUrl,
                    up_chunksIndexed = 0,
                    up_message = str ''Document uploaded but indexing failed'',
                    up_warning = Some (str ''Document was saved but could not be indexed for search''),
                    up_error = (if development svc
                                then Some (case e of Error message \<Rightarrow> message
                                                   | Thrown \<Rightarrow> str ''Unknown error'')
                                else None)\<rparr>))"

definition upload_POST :: "upload_services \<Rightarrow> upload_request \<Rightarrow> upload_response" where
  "upload_POST svc request =
     (case session_user request of
        None \<Rightarrow> Failed 401 (str ''Unauthorized'')
      | Some userId \<Rightarrow>
          if body_is_null request then Failed 400 (str ''Request body is empty'')
          else
            (case form_file request of
               Inl e \<Rightarrow> Failed 500 (str ''Failed to process document upload'')
             | Inr None \<Rightarrow> Failed 400 (str ''No file uploaded'')
             | Inr (Some file) \<Rightarrow>
                 let filename = file_name file in
                 if \<not> file_size file \<le> 5 * 1024 * 1024
                 then Failed 400 (str ''File size should be less than 5MB'')
                 else
                   let mimeType = (if file_type file = [] then str ''application/octet-stream''
                                   else file_type file);
                       isValidType =
                         (mimeType \<in> set [str ''application/pdf'', str ''text/plain'', str ''text/markdown'']
                          \<or> endsWith filename (str ''.pdf'') \<or> endsWith filename (str ''.txt'')
                          \<or> endsWith filename (str ''.md''))
                   in
                   if \<not> isValidType then Failed 400 (str ''File type should be PDF, TXT, or MD'')
                   else
                     (case extract_text svc (file\<lparr>file_type := mimeType\<rparr>) of
                        Inl e \<Rightarrow> Failed 500 (str ''Failed to process document upload'')
                      | Inr s \<Rightarrow>
                          if s = [] \<or> length (trim s) = 0
                          then Failed 400 (str ''File content is empty or could not be extracted'')
                          else
                            let blobUrl = (case put_blob svc file of
                                             Inl e \<Rightarrow> None | Inr url \<Rightarrow> Some url)
                            in save_and_index svc userId filename s blobUrl)))"

section \<open>Retrieval (retrieve-context and app/(chat)/api/chat/route.ts)\<close>

record RetrievedDocument =
  documentId :: jsstring
  documentTitle :: "jsstring option"
  content :: jsstring
  similarity :: real
  chunkIndex :: nat

record search_params =
  sp_embedding :: jsval
  sp_limit :: nat
  sp_knowledgeBaseId :: "jsstring option"
  sp_similarityThreshold :: real
  sp_userId :: jsstring

text \<open>
  A JavaScript number is a double. The model carries a finite double as the real number it
  denotes and reads every real number as the double nearest to it (as the engine reads a
  decimal literal). Not-a-number, the infinities and the sign of zero are outside the model.

  \<open>spacing x\<close> is the distance between the doubles around \<open>x\<close>: the power of two \<open>u\<close> with
  \<open>2^52 * u \<le> |x| < 2^53 * u\<close>, no smaller than \<open>2^-1074\<close> (the subnormal numbers) and no
  larger than \<open>2^971\<close> (the largest doubles). \<open>double x\<close> is the multiple of the spacing
  nearest to \<open>x\<close>, the one with the even multiplier at a tie.
\<close>

fun spacing_down :: "nat \<Rightarrow> real \<Rightarrow> real \<Rightarrow> real" where
  "spacing_down 0 x u = u"
| "spacing_down (Suc k) x u = (if 2 ^ 52 * u \<le> x then u else spacing_down k x (u / 2))"

fun spacing_up :: "nat \<Rightarrow> real \<Rightarrow> real \<Rightarrow> real" where
  "spacing_up 0 x u = u"
| "spacing_up (Suc k) x u = (if x < 2 ^ 53 * u then u else spacing_up k x (2 * u))"

definition spacing :: "real \<Rightarrow> real" where
  "spacing x = (if \<bar>x\<bar> < 2 ^ 53 then spacing_down 1074 \<bar>x\<bar> 1 else spacing_up 971 \<bar>x\<bar> 1)"

definition round_half_even :: "real \<Rightarrow> int" where
  "round_half_even x =
     (let n = \<lfloor>x\<rfloor>; r = x - of_int n
      in if r < 1 / 2 \<or> (r = 1 / 2 \<and> even n) then n else n + 1)"

definition double :: "real \<Rightarrow> real" where
  "double x = of_int (round_half_even (x / spacing x)) * spacing x"

text \<open>\<open>x * y\<close> and \<open>x >= y\<close> on numbers: the product is rounded to a double.\<close>

definition js_times :: "real \<Rightarrow> real \<Rightarrow> real" where
  "js_times x y = double (double x * double y)"

definition js_ge :: "real \<Rightarrow> real \<Rightarrow> bool" where
  "js_ge x y \<longleftrightarrow> double x \<ge> double y"

text \<open>
  \<open>x.toFixed(0)\<close> for a number below \<open>10^21\<close> in size: the sign, then the integer nearest to
  the absolute value, the larger one at a tie. (From \<open>10^21\<close> on the engine prints the exponent
  form, which is not modelled.)
\<close>

definition toFixed0 :: "real \<Rightarrow> jsstring" where
  "toFixed0 x =
     (if x < 0 then [DASH] @ show_nat (nat \<lfloor>- x + 1 / 2\<rfloor>) else show_nat (nat \<lfloor>x + 1 / 2\<rfloor>))"

text \<open>A title in a template literal: \<open>null\<close> prints as the word.\<close>

definition show_title :: "jsstring option \<Rightarrow> jsstring" where
  "show_title t = (case t of None \<Rightarrow> str ''null'' | Some s \<Rightarrow> s)"

text \<open>One document of the context message; the leading emoji is the surrogate pair of U+1F4C4.\<close>

definition formatDocument :: "RetrievedDocument \<Rightarrow> jsstring" where
  "formatDocument doc =
     [55357, 56516] @ str '' **'' @ show_title (documentTitle doc) @ str ''** (''
       @ toFixed0 (js_times (similarity doc) 100) @ str ''% relevant)'' @ [NL] @ content doc"

definition documentsText :: "RetrievedDocument list \<Rightarrow> jsstring" where
  "documentsText docs = join ([NL, NL] @ str ''---'' @ [NL, NL]) (map formatDocument docs)"

definition contextText :: "RetrievedDocument list \<Rightarrow> jsstring" where
  "contextText highQualityDocs =
     str ''**Knowledge Base Context** ('' @ show_nat (length highQualityDocs)
       @ str '' relevant document'' @ (if length highQualityDocs > 1 then str ''s'' else [])
       @ str ''):'' @ [NL, NL] @ documentsText highQualityDocs @ [NL, NL]
       @ str ''*Use information from these documents to answer the user'' @ [39]
       @ str ''s question. Cite the document title when referencing specific information.*''"

text \<open>
  \<open>docs.filter((doc) => doc.similarity >= minimum).sort((a, b) => b.similarity - a.similarity)\<close>:
  the sort is stable, and the difference of two doubles has the sign of their exact difference.
\<close>

definition highQuality :: "real \<Rightarrow> RetrievedDocument list \<Rightarrow> RetrievedDocument list" where
  "highQuality minimum docs =
     sort_key (\<lambda>doc. - double (similarity doc)) (filter (\<lambda>doc. js_ge (similarity doc) minimum) docs)"

text \<open>
  A message array may hold \<open>undefined\<close> (\<open>None\<close>).
  \<open>[...uiMessages.slice(0, -1), documentsMessage, uiMessages[uiMessages.length - 1]]\<close>
\<close>

definition insertBeforeLast :: "ChatMessage \<Rightarrow> ChatMessage option list \<Rightarrow> ChatMessage option list" where
  "insertBeforeLast documentsMessage uiMessages =
     butlast uiMessages @ [Some documentsMessage, (if uiMessages = [] then None else last uiMessages)]"

record RetrieveContextResult =
  updatedMessages :: "ChatMessage option list"
  retrievedDocuments :: "RetrievedDocument list"

text \<open>
  The environment of a retrieval: the embedding call, the vector search (lib/db/queries, outside
  the sources) and the identifier \<open>generateUUID()\<close> returns.
\<close>

record retrieval_services =
  embed_query :: "jsstring \<Rightarrow> js_error + jsval"
  searchSimilarDocuments :: "search_params \<Rightarrow> js_error + RetrievedDocument list"
  generateUUID :: jsstring

text \<open>\<open>retrieveRelevantContext\<close>: the body of the \<open>try\<close> block, then the function.\<close>

definition retrieve_attempt ::
  "retrieval_services \<Rightarrow> ChatMessage \<Rightarrow> ChatMessage option list \<Rightarrow> jsstring
     \<Rightarrow> js_error + RetrieveContextResult" where
  "retrieve_attempt svc message uiMessages userId =
     (let userMessageText = getTextFromMessage message in
      if userMessageText \<noteq> [] \<and> length (trim userMessageText) > 0 then
        let cleanedQuery = cleanQueryText userMessageText in
        if cleanedQuery \<noteq> [] \<and> length (trim cleanedQuery) > 0 then
          bind_err (embed_query svc cleanedQuery) (\<lambda>queryEmbedding.
          let dynamicThreshold = 0.0 in
          bind_err (searchSimilarDocuments svc
                      \<lparr>sp_embedding = queryEmbedding, sp_limit = 3, sp_knowledgeBaseId = None,
                       sp_similarityThreshold = dynamicThreshold, sp_userId = userId\<rparr>)
            (\<lambda>searchResults.
          let retrieved = map (\<lambda>result. result\<lparr>documentTitle :=
                                  (if is_set (documentTitle result) then documentTitle result
                                   else Some (documentId result))\<rparr>) searchResults
          in
          if length retrieved > 0 then
            let highQualityDocs = highQuality 0.0 retrieved in
            if length highQualityDocs > 0 then
              let documentsMessage =
                    \<lparr>msg_id = generateUUID svc, role = System,
                     parts = [TextPart (contextText highQualityDocs)]\<rparr>
              in Inr \<lparr>updatedMessages = insertBeforeLast documentsMessage uiMessages,
                      retrievedDocuments = retrieved\<rparr>
            else Inr \<lparr>updatedMessages = uiMessages, retrievedDocuments = retrieved\<rparr>
          else Inr \<lparr>updatedMessages = uiMessages, retrievedDocuments = retrieved\<rparr>))
        else Inr \<lparr>updatedMessages = uiMessages, retrievedDocuments = []\<rparr>
      else Inr \<lparr>updatedMessages = uiMessages, retrievedDocuments = []\<rparr>)"

definition retrieveRelevantContext ::
  "retrieval_services \<Rightarrow> ChatMessage option \<Rightarrow> ChatMessage option list \<Rightarrow> jsstring option \<Rightarrow> bool
     \<Rightarrow> RetrieveContextResult" where
  "retrieveRelevantContext svc message uiMessages userId isToolApprovalFlow =
     (if (case message of None \<Rightarrow> False | Some m \<Rightarrow> role m = User) \<and> is_set userId
         \<and> \<not> isToolApprovalFlow
      then
        case retrieve_attempt svc (the message) uiMessages (the userId) of
          Inr result \<Rightarrow> result
        | Inl e \<Rightarrow> \<lparr>updatedMessages = uiMessages, retrievedDocuments = []\<rparr>
      else \<lparr>updatedMessages = uiMessages, retrievedDocuments = []\<rparr>)"

text \<open>
  The retrieval inlined in the chat route: the message list is built from the stored messages
  and the new message (or is the list sent for a tool approval), then the same steps run with
  the route's own constants.
\<close>

definition chat_retrieve_attempt ::
  "retrieval_services \<Rightarrow> ChatMessage \<Rightarrow> ChatMessage option list \<Rightarrow> jsstring
     \<Rightarrow> js_error + RetrieveContextResult" where
  "chat_retrieve_attempt svc message uiMessages userId =
     (let userMessageText = getTextFromMessage message in
      if userMessageText \<noteq> [] \<and> length (trim userMessageText) > 0 then
        let cleanedQuery = cleanQueryText userMessageText in
        if cleanedQuery \<noteq> [] \<and> length (trim cleanedQuery) > 0 then
          bind_err (embed_query svc cleanedQuery) (\<lambda>queryEmbedding.
          let queryLength = length cleanedQuery;
              dynamicThreshold = (if queryLength < 10 then 0.5 else 0.7)
          in
          bind_err (searchSimilarDocuments svc
                      \<lparr>sp_embedding = queryEmbedding, sp_limit = 5, sp_knowledgeBaseId = None,
                       sp_similarityThreshold = dynamicThreshold, sp_userId = userId\<rparr>)
            (\<lambda>searchResults.
          let retrieved = searchResults in
          if length retrieved > 0 then
            let highQualityDocs = highQuality 0.6 retrieved in
            if length highQualityDocs > 0 then
              let documentsMessage =
                    \<lparr>msg_id = generateUUID svc, role = User,
                     parts = [TextPart (contextText highQualityDocs)]\<rparr>
              in Inr \<lparr>updatedMessages = insertBeforeLast documentsMessage uiMessages,
                      retrievedDocuments = retrieved\<rparr>
            else Inr \<lparr>updatedMessages = uiMessages, retrievedDocuments = retrieved\<rparr>
          else Inr \<lparr>updatedMessages = uiMessages, retrievedDocuments = retrieved\<rparr>))
        else Inr \<lparr>updatedMessages = uiMessages, retrievedDocuments = []\<rparr>
      else Inr \<lparr>updatedMessages = uiMessages, retrievedDocuments = []\<rparr>)"

definition chat_POST_retrieval ::
  "retrieval_services \<Rightarrow> ChatMessage option \<Rightarrow> ChatMessage list option \<Rightarrow> ChatMessage list
     \<Rightarrow> jsstring option \<Rightarrow> RetrieveContextResult" where
  "chat_POST_retrieval svc message messages messagesFromDb userId =
     (let isToolApprovalFlow = (messages \<noteq> None);
          uiMessages = (case messages of Some ms \<Rightarrow> map Some ms
                        | None \<Rightarrow> map Some messagesFromDb @ [message])
      in
      if (case message of None \<Rightarrow> False | Some m \<Rightarrow> role m = User) \<and> is_set userId
         \<and> \<not> isToolApprovalFlow
      then
        case chat_retrieve_attempt svc (the message) uiMessages (the userId) of
          Inr result \<Rightarrow> result
        | Inl e \<Rightarrow> \<lparr>updatedMessages = uiMessages, retrievedDocuments = []\<rparr>
      else \<lparr>updatedMessages = uiMessages, retrievedDocuments = []\<rparr>)"

section \<open>Example data\<close>

definition demo_user :: ChatMessage where
  "demo_user = \<lparr>msg_id = [109, 49], role = User, parts = [TextPart [104, 105]]\<rparr>"

definition demo_earlier :: ChatMessage where
  "demo_earlier = \<lparr>msg_id = [109, 48], role = Assistant, parts = [TextPart [111, 107]]\<rparr>"

definition demo_doc_high :: RetrievedDocument where
  "demo_doc_high = \<lparr>documentId = [100, 49], documentTitle = Some [65], content = [97, 97],
                    similarity = 0.9, chunkIndex = 0\<rparr>"

definition demo_doc_low :: RetrievedDocument where
  "demo_doc_low = \<lparr>documentId = [100, 50], documentTitle = Some [66], content = [98, 98],
                   similarity = 0.4, chunkIndex = 1\<rparr>"

text \<open>
  A store in which the user \<open>u1\<close> has the chunks \<open>docs\<close> near the embedding of the demo query;
  for every other user, and for every other query, the search returns one chunk at
  similarity 0.9.
\<close>

definition demo_retrieval :: "RetrievedDocument list \<Rightarrow> retrieval_services" where
  "demo_retrieval docs =
     \<lparr>embed_query = (\<lambda>q. Inr (JArr [JNum 1])),
      searchSimilarDocuments =
        (\<lambda>p. if sp_userId p = [117, 49] \<and> sp_embedding p = JArr [JNum 1] then Inr docs
             else Inr [demo_doc_high]),
      generateUUID = [117]\<rparr>"

definition demo_completion :: "jsstring \<Rightarrow> jsval" where
  "demo_completion s = JObj [(''choices'', JArr [JObj [(''message'', JObj [(''content'', JStr s)])]])]"

definition demo_chat_endpoint :: "js_error + http_response \<Rightarrow> chat_request \<Rightarrow> js_error + http_response" where
  "demo_chat_endpoint answer request = answer"

definition demo_chunks :: "TextChunk list" where
  "demo_chunks =
     [\<lparr>chunk_text = [97], startIndex = 0, endIndex = 1\<rparr>,
      \<lparr>chunk_text = [98], startIndex = 2, endIndex = 3\<rparr>,
      \<lparr>chunk_text = [97], startIndex = 4, endIndex = 5\<rparr>]"

definition demo_split :: "ChunkOptions \<Rightarrow> jsstring \<Rightarrow> js_error + jsstring list" where
  "demo_split options s = Inr [[97, 98], [32], [98, 99]]"

definition demo_upload :: "(jsstring list \<Rightarrow> js_error + jsval list) \<Rightarrow> upload_services" where
  "demo_upload embedder =
     \<lparr>extract_text = (\<lambda>file. Inr [97, 98, 99, 98, 99]),
      put_blob = (\<lambda>file. Inl Thrown),
      new_uuid = [100, 49],
      save_document = (\<lambda>doc. Inr ()),
      delete_embeddings = (\<lambda>documentId. Inr ()),
      split_text = demo_split,
      embed_texts = embedder,
      save_embeddings = (\<lambda>rows. Inr ()),
      development = False\<rparr>"







definition demo_request :: upload_request where
  "demo_request =
     \<lparr>session_user = Some [117, 49], body_is_null = False,
      form_file = Inr (Some \<lparr>file_name = [110, 46, 116, 120, 116], file_size = 5,
                               file_type = []\<rparr>)\<rparr>"

definition demo_embed_fails :: "jsstring list \<Rightarrow> js_error + jsval list" where
  "demo_embed_fails texts = Inl (Error [53, 48, 48])"

definition demo_endpoint :: emb_endpoint where
  "demo_endpoint sent request =
     (case emb_input request of
        Batch batch \<Rightarrow>
          Inr (Response True 200 [79, 75] []
                (Inr (JObj [(''data'', JArr (map (\<lambda>t. JObj [(''embedding'', JStr t)]) batch))])))
      | Single t \<Rightarrow> Inl Thrown)"

definition demo_texts :: "jsstring list" where
  "demo_texts = map (\<lambda>k. [k]) [0..<130]"

section \<open>Properties\<close>

lemma normalize_quotes_id: "normalize_quotes s = s"
  by (simp add: normalize_quotes_def)

lemmas clean_defs = cleanTextForEmbedding_def is_space_tab_def is_control_def is_zero_width_def
  is_decorative_def decorative_def normalize_quotes_def trim_lines_def trim_def is_ws_def
  last_nl_end_def cleanQueryText_def

lemma bind_err_simps [simp]:
  "bind_err (Inl e) f = Inl e"
  "bind_err (Inr x) f = f x"
  by (simp_all add: bind_err_def)

subsection \<open>Text cleaner\<close>

paragraph \<open>Run replacement\<close>

lemma replace_runs_none:
  "\<forall>c\<in>set xs. \<not> p c \<Longrightarrow> replace_runs p n rep xs = xs"
  by (induction xs) auto

lemma replace_runs_set: "set (replace_runs p n rep xs) \<subseteq> set xs \<union> set rep"
proof (induction p n rep xs rule: replace_runs.induct)
  case (1 p n rep)
  then show ?case by simp
next
  case (2 p n rep c cs)
  show ?case
  proof (cases "p c")
    case True
    have "set (takeWhile p cs) \<subseteq> set cs" by (auto dest: set_takeWhileD)
    moreover have "set (dropWhile p cs) \<subseteq> set cs" by (auto dest: set_dropWhileD)
    ultimately show ?thesis using 2(1)[OF True] True by auto
  next
    case False
    with 2(2)[OF False] show ?thesis by auto
  qed
qed

lemma replace_runs_length:
  "length rep \<le> n \<Longrightarrow> length (replace_runs p n rep xs) \<le> length xs"
proof (induction p n rep xs rule: replace_runs.induct)
  case (1 p n rep)
  then show ?case by simp
next
  case (2 p n rep c cs)
  have split: "length (takeWhile p cs) + length (dropWhile p cs) = length cs"
    by (metis length_append takeWhile_dropWhile_id)
  show ?case
  proof (cases "p c")
    case True
    with 2(1)[OF True 2(3)] 2(3) split show ?thesis by auto
  next
    case False
    with 2(2)[OF False 2(3)] show ?thesis by auto
  qed
qed

lemma replace_runs_empty:
  "rep \<noteq> [] \<Longrightarrow> replace_runs p n rep xs = [] \<longleftrightarrow> xs = []"
  by (cases xs) auto

lemma replace_runs_hd_other:
  "xs \<noteq> [] \<Longrightarrow> \<not> p (hd xs) \<Longrightarrow> hd (replace_runs p n rep xs) = hd xs"
  by (cases xs) auto

lemma replace_runs_hd_same:
  "xs \<noteq> [] \<Longrightarrow> p (hd xs) \<Longrightarrow> rep \<noteq> [] \<Longrightarrow> list_all p rep \<Longrightarrow> p (hd (replace_runs p n rep xs))"
  by (cases xs; cases rep) auto

lemma replace_runs_append:
  "run_boundary p xs ys \<Longrightarrow>
     replace_runs p n rep (xs @ ys) = replace_runs p n rep xs @ replace_runs p n rep ys"
proof (induction p n rep xs rule: replace_runs.induct)
  case (1 p n rep)
  then show ?case by simp
next
  case (2 p n rep c cs)
  show ?case
  proof (cases "p c")
    case False
    have "run_boundary p cs ys" using 2(3) by (auto simp: run_boundary_def split: if_splits)
    from 2(2)[OF False this] False show ?thesis by simp
  next
    case True
    show ?thesis
    proof (cases "dropWhile p cs = []")
      case all: True
      then have allp: "\<forall>x\<in>set cs. p x" by (simp add: dropWhile_eq_Nil_conv)
      then have "p (last (c # cs))" using True by (cases cs) auto
      with 2(3) have ys: "ys = [] \<or> \<not> p (hd ys)" by (auto simp: run_boundary_def)
      have tw: "takeWhile p (cs @ ys) = cs"
        using allp ys by (cases ys) (auto simp: takeWhile_append2)
      have dw: "dropWhile p (cs @ ys) = ys"
        using allp ys by (cases ys) (auto simp: dropWhile_append2)
      have tw': "takeWhile p cs = cs" using allp by (simp add: takeWhile_eq_all_conv)
      show ?thesis by (simp only: append_Cons replace_runs.simps True if_True tw dw tw' all append_Nil2)
    next
      case some: False
      then obtain x where x: "x \<in> set cs" "\<not> p x" by (auto simp: dropWhile_eq_Nil_conv)
      then have tw: "takeWhile p (cs @ ys) = takeWhile p cs"
        by (simp add: takeWhile_append1)
      from x have dw: "dropWhile p (cs @ ys) = dropWhile p cs @ ys"
        by (simp add: dropWhile_append1)
      have "last (dropWhile p cs) = last (c # cs)"
        using some by (metis last_ConsR last_appendR takeWhile_dropWhile_id dropWhile.simps(1))
      then have "run_boundary p (dropWhile p cs) ys"
        using 2(3) some by (auto simp: run_boundary_def)
      from 2(1)[OF True this] True tw dw show ?thesis by simp
    qed
  qed
qed

lemma replace_runs_run:
  assumes "r \<noteq> []" and "list_all p r"
  shows "replace_runs p n rep r = (if n \<le> length r then rep else r)"
proof -
  from assms obtain c cs where r: "r = c # cs" by (cases r) auto
  with assms have "p c" "\<forall>x\<in>set cs. p x" by (auto simp: list_all_iff)
  then have tw: "takeWhile p cs = cs" and dw: "dropWhile p cs = []"
    by (simp_all add: takeWhile_eq_all_conv dropWhile_eq_Nil_conv)
  show ?thesis
    unfolding r by (simp only: replace_runs.simps \<open>p c\<close> if_True tw dw append_Nil2 length_Cons)
qed

text \<open>Every non-empty list starts with a maximal run of the class or with another character.\<close>

lemma leading_run:
  assumes "xs \<noteq> []" and "p (hd xs)"
  shows "\<exists>r rest. xs = r @ rest \<and> r \<noteq> [] \<and> list_all p r \<and> (rest = [] \<or> \<not> p (hd rest))
           \<and> length rest < length xs"
proof (intro exI conjI)
  show "xs = takeWhile p xs @ dropWhile p xs" by simp
  show "takeWhile p xs \<noteq> []" using assms by (cases xs) auto
  show "list_all p (takeWhile p xs)" by (auto simp: list_all_iff dest: set_takeWhileD)
  show "dropWhile p xs = [] \<or> \<not> p (hd (dropWhile p xs))"
    by (metis hd_dropWhile)
  show "length (dropWhile p xs) < length xs"
    using assms by (cases xs) (auto simp: length_dropWhile_le less_Suc_eq_le)
qed

lemma replace_runs_step:
  assumes "r \<noteq> []" "list_all p r" "rest = [] \<or> \<not> p (hd rest)"
  shows "replace_runs p n rep (r @ rest)
           = (if n \<le> length r then rep else r) @ replace_runs p n rep rest"
proof -
  have "run_boundary p r rest" using assms(3) by (auto simp: run_boundary_def)
  then show ?thesis by (simp add: replace_runs_append replace_runs_run[OF assms(1,2)])
qed

lemma replace_runs_idem:
  assumes "rep \<noteq> []" "list_all p rep"
  shows "replace_runs p n rep (replace_runs p n rep xs) = replace_runs p n rep xs"
proof (induction "length xs" arbitrary: xs rule: less_induct)
  case less
  show ?case
  proof (cases "xs = []")
    case True
    then show ?thesis by simp
  next
    case ne: False
    show ?thesis
    proof (cases "p (hd xs)")
      case False
      with ne obtain c cs where xs: "xs = c # cs" "\<not> p c" by (cases xs) auto
      with less[of cs] show ?thesis by simp
    next
      case True
      from leading_run[of xs p, OF ne True] obtain r rest where
        d: "xs = r @ rest" "r \<noteq> []" "list_all p r" "rest = [] \<or> \<not> p (hd rest)"
          "length rest < length xs" by blast
      let ?out = "if n \<le> length r then rep else r"
      let ?F = "replace_runs p n rep"
      have out: "?out \<noteq> []" "list_all p ?out" using d assms by auto
      have b: "?F rest = [] \<or> \<not> p (hd (?F rest))"
      proof (cases "rest = []")
        case True
        then show ?thesis by simp
      next
        case False
        with d(4) show ?thesis by (simp add: replace_runs_hd_other)
      qed
      have "?F xs = ?out @ ?F rest" unfolding d(1) by (rule replace_runs_step[OF d(2,3,4)])
      moreover have "?F (?out @ ?F rest) = (if n \<le> length ?out then rep else ?out) @ ?F (?F rest)"
        by (rule replace_runs_step[OF out b])
      moreover have "(if n \<le> length ?out then rep else ?out) = ?out" by auto
      ultimately show ?thesis using less[OF d(5)] by simp
    qed
  qed
qed

lemma replace_runs_commute:
  assumes p: "rp \<noteq> []" "list_all p rp" and q: "rq \<noteq> []" "list_all q rq"
    and disjoint: "\<And>c. p c \<Longrightarrow> \<not> q c"
  shows "replace_runs p n rp (replace_runs q m rq xs) = replace_runs q m rq (replace_runs p n rp xs)"
proof (induction "length xs" arbitrary: xs rule: less_induct)
  case less
  let ?F = "replace_runs p n rp" and ?G = "replace_runs q m rq"
  have swap: "\<And>c. q c \<Longrightarrow> \<not> p c" using disjoint by blast
  show ?case
  proof (cases "xs = []")
    case True
    then show ?thesis by simp
  next
    case ne: False
    consider (p) "p (hd xs)" | (q) "q (hd xs)" | (other) "\<not> p (hd xs)" "\<not> q (hd xs)" by blast
    then show ?thesis
    proof cases
      case other
      with ne obtain c cs where xs: "xs = c # cs" "\<not> p c" "\<not> q c" by (cases xs) auto
      with less[of cs] show ?thesis by simp
    next
      case p
      from leading_run[of xs p, OF ne p] obtain r rest where
        d: "xs = r @ rest" "r \<noteq> []" "list_all p r" "rest = [] \<or> \<not> p (hd rest)"
          "length rest < length xs" by blast
      let ?out = "if n \<le> length r then rp else r"
      have out: "?out \<noteq> []" "list_all p ?out" using d assms by auto
      have rnq: "\<forall>c\<in>set r. \<not> q c" using d(3) disjoint by (auto simp: list_all_iff)
      have outnq: "\<forall>c\<in>set ?out. \<not> q c" using out(2) disjoint by (auto simp: list_all_iff)
      have Fxs: "?F xs = ?out @ ?F rest" unfolding d(1) by (rule replace_runs_step[OF d(2,3,4)])
      have "run_boundary q ?out (?F rest)"
        using out(1) outnq by (auto simp: run_boundary_def)
      then have GF: "?G (?F xs) = ?out @ ?G (?F rest)"
        by (simp add: Fxs replace_runs_append replace_runs_none[OF outnq])
      have "run_boundary q r rest" using d(2) rnq by (auto simp: run_boundary_def)
      then have Gxs: "?G xs = r @ ?G rest"
        unfolding d(1) by (simp add: replace_runs_append replace_runs_none[OF rnq])
      have b: "?G rest = [] \<or> \<not> p (hd (?G rest))"
      proof (cases "rest = []")
        case True
        then show ?thesis by simp
      next
        case False
        with d(4) have np: "\<not> p (hd rest)" by simp
        show ?thesis
        proof (cases "q (hd rest)")
          case True
          from replace_runs_hd_same[OF False True q] swap show ?thesis by blast
        next
          case False
          with np \<open>rest \<noteq> []\<close> show ?thesis by (simp add: replace_runs_hd_other)
        qed
      qed
      have FG: "?F (?G xs) = ?out @ ?F (?G rest)"
        unfolding Gxs by (rule replace_runs_step[OF d(2,3) b])
      from FG GF less[OF d(5)] show ?thesis by simp
    next
      case q
      from leading_run[of xs q, OF ne q] obtain r rest where
        d: "xs = r @ rest" "r \<noteq> []" "list_all q r" "rest = [] \<or> \<not> q (hd rest)"
          "length rest < length xs" by blast
      let ?out = "if m \<le> length r then rq else r"
      have out: "?out \<noteq> []" "list_all q ?out" using d assms by auto
      have rnp: "\<forall>c\<in>set r. \<not> p c" using d(3) swap by (auto simp: list_all_iff)
      have outnp: "\<forall>c\<in>set ?out. \<not> p c" using out(2) swap by (auto simp: list_all_iff)
      have Gxs: "?G xs = ?out @ ?G rest" unfolding d(1) by (rule replace_runs_step[OF d(2,3,4)])
      have "run_boundary p ?out (?G rest)"
        using out(1) outnp by (auto simp: run_boundary_def)
      then have FG: "?F (?G xs) = ?out @ ?F (?G rest)"
        by (simp add: Gxs replace_runs_append replace_runs_none[OF outnp])
      have "run_boundary p r rest" using d(2) rnp by (auto simp: run_boundary_def)
      then have Fxs: "?F xs = r @ ?F rest"
        unfolding d(1) by (simp add: replace_runs_append replace_runs_none[OF rnp])
      have b: "?F rest = [] \<or> \<not> q (hd (?F rest))"
      proof (cases "rest = []")
        case True
        then show ?thesis by simp
      next
        case False
        with d(4) have nq: "\<not> q (hd rest)" by simp
        show ?thesis
        proof (cases "p (hd rest)")
          case True
          from replace_runs_hd_same[OF False True p] disjoint show ?thesis by blast
        next
          case False
          with nq \<open>rest \<noteq> []\<close> show ?thesis by (simp add: replace_runs_hd_other)
        qed
      qed
      have GF: "?G (?F xs) = ?out @ ?G (?F rest)"
        unfolding Fxs by (rule replace_runs_step[OF d(2,3) b])
      from FG GF less[OF d(5)] show ?thesis by simp
    qed
  qed
qed

paragraph \<open>The run-collapsing steps\<close>

lemma plain_replace_runs:
  "plain s \<Longrightarrow> plain rep \<Longrightarrow> plain (replace_runs p n rep s)"
  using replace_runs_set[of p n rep s] by (auto simp: plain_def)

lemma plain_literals:
  "plain [SP]" "plain [NL, NL]" "plain [DOT, DOT, DOT]" "plain [DASH, DASH]" "plain [USCORE, USCORE]"
  by (simp_all add: plain_def is_control_def is_zero_width_def is_decorative_def decorative_def)

lemma plain_collapse_runs: "plain s \<Longrightarrow> plain (collapse_runs s)"
  unfolding collapse_runs_def by (intro plain_replace_runs plain_literals)

lemma plain_filters:
  assumes "plain s"
  shows "filter (\<lambda>c. \<not> is_control c) s = s" "filter (\<lambda>c. \<not> is_zero_width c) s = s"
    "filter (\<lambda>c. \<not> is_decorative c) s = s"
  using assms by (simp_all add: plain_def filter_id_conv)

lemma collapse_runs_fixed:
  "replace_runs is_space_tab 1 [SP] (collapse_runs s) = collapse_runs s"
  "replace_runs (\<lambda>c. c = NL) 3 [NL, NL] (collapse_runs s) = collapse_runs s"
  "replace_runs (\<lambda>c. c = DOT) 4 [DOT, DOT, DOT] (collapse_runs s) = collapse_runs s"
  "replace_runs (\<lambda>c. c = DASH) 3 [DASH, DASH] (collapse_runs s) = collapse_runs s"
  "replace_runs (\<lambda>c. c = USCORE) 3 [USCORE, USCORE] (collapse_runs s) = collapse_runs s"
proof -
  let ?S = "replace_runs is_space_tab 1 [SP]"
  let ?N = "replace_runs (\<lambda>c. c = NL) 3 [NL, NL]"
  let ?Do = "replace_runs (\<lambda>c. c = DOT) 4 [DOT, DOT, DOT]"
  let ?Da = "replace_runs (\<lambda>c. c = DASH) 3 [DASH, DASH]"
  let ?U = "replace_runs (\<lambda>c. c = USCORE) 3 [USCORE, USCORE]"
  have iS: "?S (?S x) = ?S x" for x by (rule replace_runs_idem) (simp_all add: is_space_tab_def)
  have iN: "?N (?N x) = ?N x" for x by (rule replace_runs_idem) simp_all
  have iDo: "?Do (?Do x) = ?Do x" for x by (rule replace_runs_idem) simp_all
  have iDa: "?Da (?Da x) = ?Da x" for x by (rule replace_runs_idem) simp_all
  have iU: "?U (?U x) = ?U x" for x by (rule replace_runs_idem) simp_all
  have NS: "?N (?S x) = ?S (?N x)" for x
    by (rule replace_runs_commute) (simp_all add: is_space_tab_def)
  have SDo: "?S (?Do x) = ?Do (?S x)" for x
    by (rule replace_runs_commute) (auto simp: is_space_tab_def)
  have SDa: "?S (?Da x) = ?Da (?S x)" for x
    by (rule replace_runs_commute) (auto simp: is_space_tab_def)
  have SU: "?S (?U x) = ?U (?S x)" for x
    by (rule replace_runs_commute) (auto simp: is_space_tab_def)
  have NDo: "?N (?Do x) = ?Do (?N x)" for x by (rule replace_runs_commute) simp_all
  have NDa: "?N (?Da x) = ?Da (?N x)" for x by (rule replace_runs_commute) simp_all
  have NU: "?N (?U x) = ?U (?N x)" for x by (rule replace_runs_commute) simp_all
  have DoDa: "?Do (?Da x) = ?Da (?Do x)" for x by (rule replace_runs_commute) simp_all
  have DoU: "?Do (?U x) = ?U (?Do x)" for x by (rule replace_runs_commute) simp_all
  have DaU: "?Da (?U x) = ?U (?Da x)" for x by (rule replace_runs_commute) simp_all
  show "?S (collapse_runs s) = collapse_runs s"
    unfolding collapse_runs_def by (simp only: SU SDa SDo iS)
  show "?N (collapse_runs s) = collapse_runs s"
    unfolding collapse_runs_def by (simp only: NU NDa NDo NS iN)
  show "?Do (collapse_runs s) = collapse_runs s"
    unfolding collapse_runs_def by (simp only: DoU DoDa iDo)
  show "?Da (collapse_runs s) = collapse_runs s"
    unfolding collapse_runs_def by (simp only: DaU iDa)
  show "?U (collapse_runs s) = collapse_runs s"
    unfolding collapse_runs_def by (simp only: iU)
qed

paragraph \<open>Trimming\<close>

lemma replace_runs_parts:
  assumes "run_boundary p u m" and "length rep \<le> n"
    and "replace_runs p n rep (u @ m) = u @ m"
  shows "replace_runs p n rep u = u \<and> replace_runs p n rep m = m"
proof -
  let ?F = "replace_runs p n rep"
  have eq: "?F u @ ?F m = u @ m"
    using assms(3) by (simp add: replace_runs_append[OF assms(1)])
  have "length (?F u) \<le> length u" "length (?F m) \<le> length m"
    using assms(2) by (simp_all add: replace_runs_length)
  moreover from eq have "length (?F u) + length (?F m) = length u + length m"
    by (metis length_append)
  ultimately have "length (?F u) = length u" by linarith
  with eq show ?thesis by simp
qed

lemma trim_parts:
  "\<exists>u v. s = u @ trim s @ v \<and> list_all is_ws u \<and> list_all is_ws v \<and> (trim s = [] \<longrightarrow> v = [])"
proof -
  let ?m = "dropWhile is_ws s"
  let ?v = "rev (takeWhile is_ws (rev ?m))"
  have "s = takeWhile is_ws s @ ?m" by simp
  moreover have "?m = rev (dropWhile is_ws (rev ?m)) @ ?v"
    by (metis rev_append rev_rev_ident takeWhile_dropWhile_id)
  ultimately have "s = takeWhile is_ws s @ trim s @ ?v"
    by (simp add: trim_def)
  moreover have "list_all is_ws (takeWhile is_ws s)"
    by (auto simp: list_all_iff dest: set_takeWhileD)
  moreover have "list_all is_ws ?v"
    by (auto simp: list_all_iff dest: set_takeWhileD)
  moreover have "trim s = [] \<longrightarrow> ?v = []"
  proof
    assume "trim s = []"
    then have "dropWhile is_ws (rev ?m) = []" by (simp add: trim_def)
    then have all: "\<forall>x\<in>set (rev ?m). is_ws x" by (simp only: dropWhile_eq_Nil_conv)
    have "?m = []"
    proof (rule ccontr)
      assume ne: "?m \<noteq> []"
      then have "\<not> is_ws (hd ?m)" by (rule hd_dropWhile)
      moreover have "hd ?m \<in> set (rev ?m)" using ne by simp
      ultimately show False using all by blast
    qed
    then show "?v = []" by (simp only: rev.simps takeWhile.simps)
  qed
  ultimately show ?thesis by blast
qed

lemma last_dropWhile: "dropWhile P xs \<noteq> [] \<Longrightarrow> last (dropWhile P xs) = last xs"
  by (metis last_appendR takeWhile_dropWhile_id)

lemma trim_ends: "trim s = [] \<or> (\<not> is_ws (hd (trim s)) \<and> \<not> is_ws (last (trim s)))"
proof (cases "trim s = []")
  case True
  then show ?thesis by simp
next
  case False
  let ?m = "dropWhile is_ws s"
  let ?k = "dropWhile is_ws (rev ?m)"
  from False have k: "?k \<noteq> []" by (simp add: trim_def)
  have m: "?m \<noteq> []"
    using k by (metis dropWhile.simps(1) rev.simps(1))
  have "last (trim s) = hd ?k" using k by (simp add: trim_def last_rev)
  moreover have "\<not> is_ws (hd ?k)" using k by (rule hd_dropWhile)
  moreover have "hd (trim s) = last ?k" using k by (simp add: trim_def hd_rev)
  moreover have "last ?k = last (rev ?m)" using k by (rule last_dropWhile)
  moreover have "last (rev ?m) = hd ?m" using m by (simp add: last_rev)
  moreover have "\<not> is_ws (hd ?m)" using m by (rule hd_dropWhile)
  ultimately show ?thesis by simp
qed

lemma trim_id: "s = [] \<or> (\<not> is_ws (hd s) \<and> \<not> is_ws (last s)) \<Longrightarrow> trim s = s"
proof (cases "s = []")
  case True
  then show ?thesis by (simp add: trim_def)
next
  case False
  assume "s = [] \<or> (\<not> is_ws (hd s) \<and> \<not> is_ws (last s))"
  with False have ends: "\<not> is_ws (hd s)" "\<not> is_ws (last s)" by auto
  from False ends(1) have front: "dropWhile is_ws s = s" by (cases s) auto
  from False ends(2) have "dropWhile is_ws (rev s) = rev s"
    by (cases "rev s") (auto simp: last_rev[symmetric] hd_rev)
  with front show ?thesis by (simp add: trim_def)
qed

lemma trim_idem: "trim (trim s) = trim s"
  using trim_ends[of s] by (rule trim_id)

lemma replace_runs_trim:
  assumes "ws_class p" and "length rep \<le> n" and "replace_runs p n rep s = s"
  shows "replace_runs p n rep (trim s) = trim s"
proof -
  from trim_parts[of s] obtain u v where
    s: "s = u @ trim s @ v" and u: "list_all is_ws u" and v: "list_all is_ws v"
    and empty: "trim s = [] \<longrightarrow> v = []" by blast
  have ends: "trim s = [] \<or> (\<not> is_ws (hd (trim s)) \<and> \<not> is_ws (last (trim s)))"
    by (rule trim_ends)
  have b1: "run_boundary p u (trim s @ v)"
  proof (cases "u = [] \<or> trim s @ v = []")
    case True
    then show ?thesis by (auto simp: run_boundary_def)
  next
    case False
    then have "is_ws (last u)" using u by (simp add: list_all_iff)
    moreover have "trim s \<noteq> []" using False empty by auto
    then have "\<not> is_ws (hd (trim s @ v))" using ends by auto
    ultimately show ?thesis
      using assms(1) unfolding run_boundary_def ws_class_def by metis
  qed
  from replace_runs_parts[OF b1 assms(2)] s assms(3)
  have mid: "replace_runs p n rep (trim s @ v) = trim s @ v" by metis
  have b2: "run_boundary p (trim s) v"
  proof (cases "trim s = [] \<or> v = []")
    case True
    then show ?thesis by (auto simp: run_boundary_def)
  next
    case False
    then have "is_ws (hd v)" using v by (cases v) (auto simp: list_all_iff)
    moreover have "\<not> is_ws (last (trim s))" using ends False by auto
    ultimately show ?thesis
      using assms(1) unfolding run_boundary_def ws_class_def by metis
  qed
  from replace_runs_parts[OF b2 assms(2) mid] show ?thesis by simp
qed

paragraph \<open>Lines\<close>

lemma line_induct [case_names single line]:
  assumes "\<And>s. NL \<notin> set s \<Longrightarrow> P s"
    and "\<And>l rest. NL \<notin> set l \<Longrightarrow> P rest \<Longrightarrow> P (l @ NL # rest)"
  shows "P s"
proof (induction "length s" arbitrary: s rule: less_induct)
  case less
  show ?case
  proof (cases "NL \<in> set s")
    case False
    then show ?thesis by (rule assms(1))
  next
    case True
    then obtain l rest where s: "s = l @ NL # rest" "NL \<notin> set l"
      by (auto dest: split_list_first)
    then have "length rest < length s" by simp
    from assms(2)[OF s(2) less[OF this]] s(1) show ?thesis by simp
  qed
qed

lemma split_nl_nonempty: "split_nl s \<noteq> []"
  by (induction s) (auto split: list.splits)

lemma split_nl_single: "NL \<notin> set s \<Longrightarrow> split_nl s = [s]"
  by (induction s) auto

lemma split_nl_line: "NL \<notin> set l \<Longrightarrow> split_nl (l @ NL # rest) = l # split_nl rest"
  by (induction l) auto

lemma join_Cons: "join sep (l # ls) = (if ls = [] then l else l @ sep @ join sep ls)"
  by (cases ls) auto

lemma trim_lines_single: "NL \<notin> set s \<Longrightarrow> trim_lines s = trim s"
  by (simp add: trim_lines_def split_nl_single)

lemma trim_lines_line:
  "NL \<notin> set l \<Longrightarrow> trim_lines (l @ NL # rest) = trim l @ NL # trim_lines rest"
  by (simp add: trim_lines_def split_nl_line join_Cons split_nl_nonempty)

lemma set_trim: "set (trim s) \<subseteq> set s"
proof -
  from trim_parts[of s] obtain u v where "s = u @ trim s @ v" by blast
  then have "set s = set u \<union> set (trim s) \<union> set v" by (metis set_append Un_assoc)
  then show ?thesis by blast
qed

lemma plain_append: "plain (a @ b) \<longleftrightarrow> plain a \<and> plain b"
  by (auto simp: plain_def)

lemma plain_trim: "plain s \<Longrightarrow> plain (trim s)"
  using set_trim[of s] by (auto simp: plain_def)

lemma plain_trim_lines: "plain s \<Longrightarrow> plain (trim_lines s)"
proof (induction s rule: line_induct)
  case (single s)
  then show ?case by (simp add: trim_lines_single plain_trim)
next
  case (line l rest)
  from line.prems have "plain l" "plain rest" by (auto simp: plain_def)
  with line.IH line.hyps show ?case
    by (simp add: trim_lines_line plain_append plain_trim)
       (simp add: plain_def is_control_def is_zero_width_def is_decorative_def decorative_def)
qed

lemma replace_runs_trim_lines:
  assumes "ws_class p" and "\<not> p NL" and "length rep \<le> n"
  shows "replace_runs p n rep s = s \<Longrightarrow> replace_runs p n rep (trim_lines s) = trim_lines s"
proof (induction s rule: line_induct)
  case (single s)
  then show ?case by (simp add: trim_lines_single replace_runs_trim[OF assms(1,3)])
next
  case (line l rest)
  let ?F = "replace_runs p n rep"
  have b: "run_boundary p l (NL # rest)" using assms(2) by (simp add: run_boundary_def)
  from replace_runs_parts[OF b assms(3) line.prems]
  have l: "?F l = l" and "?F (NL # rest) = NL # rest" by simp_all
  then have rest: "?F rest = rest" using assms(2) by simp
  have b': "run_boundary p (trim l) (NL # trim_lines rest)"
    using assms(2) by (simp add: run_boundary_def)
  show ?case
    using line.hyps assms(2) line.IH[OF rest] replace_runs_trim[OF assms(1,3) l]
    by (simp add: trim_lines_line replace_runs_append[OF b'])
qed

paragraph \<open>Line feeds with no other whitespace beside them\<close>

lemma tight_append:
  "tight (a @ b) \<longleftrightarrow> tight a \<and> tight b \<and> (a = [] \<or> b = [] \<or> tight_pair (last a) (hd b))"
  by (auto simp: tight_def successively_append_iff)

lemma tight_Cons: "tight (c # s) \<longleftrightarrow> s = [] \<or> (tight_pair c (hd s) \<and> tight s)"
  by (simp add: tight_def successively_Cons)

lemma tight_tl: "tight (c # s) \<Longrightarrow> tight s"
  by (cases s) (simp_all add: tight_def)

lemma tight_without_nl: "NL \<notin> set s \<Longrightarrow> tight s"
proof (induction s)
  case Nil
  then show ?case by (simp add: tight_def)
next
  case (Cons c s)
  then show ?case by (cases s) (auto simp: tight_Cons tight_pair_def)
qed

lemma tight_all_nl: "\<forall>c\<in>set s. c = NL \<Longrightarrow> tight s"
proof (induction s)
  case Nil
  then show ?case by (simp add: tight_def)
next
  case (Cons c s)
  then show ?case by (cases s) (auto simp: tight_Cons tight_pair_def)
qed

lemma is_ws_NL: "is_ws NL"
  by (simp add: is_ws_def)

lemma tight_trim: "tight s \<Longrightarrow> tight (trim s)"
proof -
  assume t: "tight s"
  from trim_parts[of s] obtain u v where "s = u @ trim s @ v" by blast
  with t have "tight (u @ trim s @ v)" by simp
  then show ?thesis by (simp add: tight_append)
qed

lemma tight_trim_lines: "tight (trim_lines s) \<and> ends_ok (trim_lines s)"
proof (induction s rule: line_induct)
  case (single s)
  have "NL \<notin> set (trim s)" using single set_trim[of s] by blast
  then have "tight (trim s)" by (rule tight_without_nl)
  moreover have "ends_ok (trim s)" using trim_ends[of s] by (auto simp: ends_ok_def)
  ultimately show ?case using single by (simp add: trim_lines_single)
next
  case (line l rest)
  let ?r = "trim_lines rest"
  have nl: "NL \<notin> set (trim l)" using line.hyps set_trim[of l] by blast
  then have tl: "tight (trim l)" by (rule tight_without_nl)
  have ends: "trim l = [] \<or> (\<not> is_ws (hd (trim l)) \<and> \<not> is_ws (last (trim l)))"
    by (rule trim_ends)
  from line.IH have r: "tight ?r" "ends_ok ?r" by simp_all
  have "tight (NL # ?r)"
    using r by (auto simp: tight_Cons tight_pair_def ends_ok_def)
  moreover have "trim l = [] \<or> tight_pair (last (trim l)) NL"
    using ends by (auto simp: tight_pair_def)
  ultimately have "tight (trim l @ NL # ?r)" using tl by (auto simp: tight_append)
  moreover have "ends_ok (trim l @ NL # ?r)"
    using ends r(2) by (cases "trim l = []"; cases "?r = []") (auto simp: ends_ok_def)
  ultimately show ?case using line.hyps by (simp add: trim_lines_line)
qed

lemma trim_lines_id: "tight s \<Longrightarrow> ends_ok s \<Longrightarrow> trim_lines s = s"
proof (induction s rule: line_induct)
  case (single s)
  have "s \<noteq> [] \<Longrightarrow> hd s \<noteq> NL \<and> last s \<noteq> NL"
    using single(1) by (metis hd_in_set last_in_set)
  with single(3) have "s = [] \<or> (\<not> is_ws (hd s) \<and> \<not> is_ws (last s))"
    by (cases "s = []") (auto simp: ends_ok_def)
  then show ?case using single(1) by (simp add: trim_lines_single trim_id)
next
  case (line l rest)
  from line.prems(1) have t: "tight l" "tight (NL # rest)"
    and j: "l = [] \<or> tight_pair (last l) NL"
    by (auto simp: tight_append)
  have l: "l = [] \<or> (\<not> is_ws (hd l) \<and> \<not> is_ws (last l))"
  proof (cases "l = []")
    case True
    then show ?thesis by simp
  next
    case False
    then have "hd l \<noteq> NL" "last l \<noteq> NL"
      using line.hyps by (metis hd_in_set, metis last_in_set)
    moreover have "hd (l @ NL # rest) = hd l" using False by simp
    ultimately show ?thesis
      using False j line.prems(2) by (auto simp: ends_ok_def tight_pair_def)
  qed
  have "tight rest" using t(2) by (rule tight_tl)
  moreover have "ends_ok rest"
  proof (cases "rest = []")
    case True
    then show ?thesis by (simp add: ends_ok_def)
  next
    case False
    then have "tight_pair NL (hd rest)" using t(2) by (simp add: tight_Cons)
    moreover have "last (l @ NL # rest) = last rest" using False by simp
    ultimately show ?thesis
      using False line.prems(2) by (auto simp: ends_ok_def tight_pair_def)
  qed
  ultimately have "trim_lines rest = rest" by (rule line.IH)
  with l line.hyps show ?case by (simp add: trim_lines_line trim_id)
qed

lemma tight_collapse_nl:
  "tight s \<Longrightarrow> tight (replace_runs (\<lambda>c. c = NL) 3 [NL, NL] s)"
proof (induction "length s" arbitrary: s rule: less_induct)
  case less
  let ?N = "replace_runs (\<lambda>c. c = NL) 3 [NL, NL]"
  show ?case
  proof (cases "s = []")
    case True
    then show ?thesis by (simp add: tight_def)
  next
    case ne: False
    show ?thesis
    proof (cases "hd s = NL")
      case False
      with ne obtain c cs where s: "s = c # cs" "c \<noteq> NL" by (cases s) auto
      from less.prems s have tcs: "tight cs" by (auto dest: tight_tl)
      have IH: "tight (?N cs)" using less.hyps[of cs] s tcs by simp
      show ?thesis
      proof (cases "cs = []")
        case True
        with s show ?thesis by (simp add: tight_def)
      next
        case False
        with less.prems s have pair: "tight_pair c (hd cs)" by (simp add: tight_Cons)
        have "tight_pair c (hd (?N cs))"
        proof (cases "hd cs = NL")
          case True
          from replace_runs_hd_same[of cs "\<lambda>c. c = NL" "[NL, NL]" 3, OF False True]
          have "hd (?N cs) = NL" by simp
          with pair True show ?thesis by simp
        next
          case nl: False
          from replace_runs_hd_other[of cs "\<lambda>c. c = NL" 3 "[NL, NL]", OF False nl] pair
          show ?thesis by simp
        qed
        with IH s show ?thesis by (simp add: tight_Cons)
      qed
    next
      case True
      from leading_run[of s "\<lambda>c. c = NL", OF ne True] obtain r rest where
        d: "s = r @ rest" "r \<noteq> []" "list_all (\<lambda>c. c = NL) r" "rest = [] \<or> hd rest \<noteq> NL"
          "length rest < length s" by blast
      let ?out = "if 3 \<le> length r then [NL, NL] else r"
      have Ns: "?N s = ?out @ ?N rest"
        unfolding d(1) by (rule replace_runs_step) (use d in auto)
      have out: "?out \<noteq> []" "\<forall>c\<in>set ?out. c = NL" using d(2,3) by (auto simp: list_all_iff)
      then have tout: "tight ?out" by (intro tight_all_nl)
      have lastout: "last ?out = NL" using out last_in_set[of ?out] by blast
      have allr: "\<forall>c\<in>set r. c = NL" using d(3) by (simp add: list_all_iff)
      have lastr: "last r = NL" using allr d(2) last_in_set[of r] by blast
      from less.prems d(1) have trest: "tight rest"
        and j: "rest = [] \<or> tight_pair (last r) (hd rest)"
        using d(2) by (auto simp: tight_append)
      have IH: "tight (?N rest)" using less.hyps[OF d(5) trest] .
      have "?N rest = [] \<or> tight_pair (last ?out) (hd (?N rest))"
      proof (cases "rest = []")
        case True
        then show ?thesis by simp
      next
        case False
        with d(4) have "hd rest \<noteq> NL" by simp
        from replace_runs_hd_other[of rest "\<lambda>c. c = NL" 3 "[NL, NL]", OF False this]
        have "hd (?N rest) = hd rest" .
        with j False lastr lastout show ?thesis by simp
      qed
      with tout IH show ?thesis unfolding Ns by (simp add: tight_append)
    qed
  qed
qed

lemma replace_runs_short:
  "length (takeWhile p s) < n \<Longrightarrow>
     replace_runs p n rep s = takeWhile p s @ replace_runs p n rep (dropWhile p s)"
  by (cases s) auto

lemma ws_run_after_nl:
  "tight (NL # cs) \<Longrightarrow> takeWhile is_ws cs = takeWhile (\<lambda>c. c = NL) cs"
proof (induction cs)
  case Nil
  then show ?case by simp
next
  case (Cons b cs)
  from Cons.prems have pair: "tight_pair NL b" and t: "tight (b # cs)"
    by (simp_all add: tight_Cons)
  show ?case
  proof (cases "is_ws b")
    case True
    with pair have b: "b = NL" by (simp add: tight_pair_def)
    with t Cons.IH True show ?thesis by simp
  next
    case False
    then have "b \<noteq> NL" using is_ws_NL by auto
    with False show ?thesis by simp
  qed
qed

lemma nl_run_measures:
  assumes "\<forall>c\<in>set r. c = NL"
  shows "count_list r NL = length r" and "last_nl_end r = length r"
proof -
  show "count_list r NL = length r" using assms by (induction r) auto
  show "last_nl_end r = length r"
  proof (cases "rev r")
    case Nil
    then show ?thesis by (simp add: last_nl_end_def)
  next
    case (Cons c cs)
    then have "c \<in> set r" by (metis list.set_intros(1) set_rev)
    with assms have "c = NL" by simp
    with Cons show ?thesis by (simp add: last_nl_end_def)
  qed
qed

lemma collapse_blank_lines_tight:
  "tight s \<Longrightarrow> collapse_blank_lines s = replace_runs (\<lambda>c. c = NL) 3 [NL, NL] s"
proof (induction "length s" arbitrary: s rule: less_induct)
  case less
  let ?N = "replace_runs (\<lambda>c. c = NL) 3 [NL, NL]"
  show ?case
  proof (cases s)
    case Nil
    then show ?thesis by simp
  next
    case (Cons c cs)
    have tcs: "tight cs" using less.prems Cons by (auto dest: tight_tl)
    have IHcs: "collapse_blank_lines cs = ?N cs" using less.hyps[of cs] Cons tcs by simp
    show ?thesis
    proof (cases "c = NL")
      case False
      with Cons IHcs show ?thesis by simp
    next
      case True
      let ?r = "takeWhile (\<lambda>c. c = NL) cs"
      let ?rest = "dropWhile (\<lambda>c. c = NL) cs"
      have run: "takeWhile is_ws cs = ?r"
        using less.prems Cons True by (simp add: ws_run_after_nl)
      have all: "\<forall>c\<in>set ?r. c = NL" by (auto dest: set_takeWhileD)
      note m = nl_run_measures[OF all]
      have drop: "drop (length ?r) cs = ?rest" by (simp add: dropWhile_eq_drop)
      show ?thesis
      proof (cases "2 \<le> length ?r")
        case long: True
        have "tight (?r @ ?rest)" using tcs by simp
        then have "tight ?rest" by (simp only: tight_append)
        moreover have "length ?rest < length s"
          using Cons by (simp add: length_dropWhile_le less_Suc_eq_le)
        ultimately have "collapse_blank_lines ?rest = ?N ?rest" using less.hyps by blast
        then show ?thesis
          using Cons True long by (simp add: run m drop)
      next
        case short: False
        then have "length ?r < 3" by simp
        from replace_runs_short[OF this] have "?N cs = ?r @ ?N ?rest" .
        then show ?thesis
          using Cons True short IHcs by (simp add: run m)
      qed
    qed
  qed
qed

paragraph \<open>The cleaner on text without removable characters\<close>

lemma ws_classes:
  "ws_class is_space_tab" "ws_class (\<lambda>c. c = NL)" "ws_class (\<lambda>c. c = DOT)"
  "ws_class (\<lambda>c. c = DASH)" "ws_class (\<lambda>c. c = USCORE)"
  by (auto simp: ws_class_def is_space_tab_def is_ws_def)

lemma commute_nl:
  assumes "rep \<noteq> []" "list_all p rep" "\<not> p NL"
  shows "replace_runs p n rep (replace_runs (\<lambda>c. c = NL) 3 [NL, NL] s)
           = replace_runs (\<lambda>c. c = NL) 3 [NL, NL] (replace_runs p n rep s)"
  by (rule replace_runs_commute) (use assms in auto)

lemma cleanTextForEmbedding_plain:
  assumes "plain s" and "s \<noteq> []"
  shows "cleanTextForEmbedding s = trim (collapse_blank_lines (trim_lines (collapse_runs s)))"
proof -
  let ?a = "replace_runs is_space_tab 1 [SP]
              (replace_runs (\<lambda>c. c = NL) 3 [NL, NL] (replace_runs is_space_tab 1 [SP] s))"
  have a: "plain ?a" using assms(1) by (intro plain_replace_runs plain_literals)
  have b: "plain (collapse_runs s)" using assms(1) by (rule plain_collapse_runs)
  have b': "replace_runs (\<lambda>c. c = USCORE) 3 [USCORE, USCORE]
              (replace_runs (\<lambda>c. c = DASH) 3 [DASH, DASH]
                (replace_runs (\<lambda>c. c = DOT) 4 [DOT, DOT, DOT] ?a)) = collapse_runs s"
    by (simp add: collapse_runs_def)
  show ?thesis
    unfolding cleanTextForEmbedding_def Let_def
    using assms(2)
    by (simp only: if_False plain_filters[OF a] b' plain_filters[OF b] normalize_quotes_id)
qed

text \<open>The strings every step of the cleaner leaves as they are.\<close>

lemma cleanTextForEmbedding_fixed:
  assumes "plain x"
    and "replace_runs is_space_tab 1 [SP] x = x"
    and "replace_runs (\<lambda>c. c = NL) 3 [NL, NL] x = x"
    and "replace_runs (\<lambda>c. c = DOT) 4 [DOT, DOT, DOT] x = x"
    and "replace_runs (\<lambda>c. c = DASH) 3 [DASH, DASH] x = x"
    and "replace_runs (\<lambda>c. c = USCORE) 3 [USCORE, USCORE] x = x"
    and "trim_lines x = x" and "collapse_blank_lines x = x" and "trim x = x"
  shows "cleanTextForEmbedding x = x"
proof (cases "x = []")
  case True
  then show ?thesis by (simp add: cleanTextForEmbedding_def)
next
  case False
  have "collapse_runs x = x" by (simp only: collapse_runs_def assms)
  with cleanTextForEmbedding_plain[OF assms(1) False] assms(7-9) show ?thesis by simp
qed

lemma cleaned_is_fixed:
  assumes "plain s"
  shows "cleanTextForEmbedding (trim (collapse_blank_lines (trim_lines (collapse_runs s))))
           = trim (collapse_blank_lines (trim_lines (collapse_runs s)))"
proof -
  let ?S = "replace_runs is_space_tab 1 [SP]"
  let ?N = "replace_runs (\<lambda>c. c = NL) 3 [NL, NL]"
  let ?Do = "replace_runs (\<lambda>c. c = DOT) 4 [DOT, DOT, DOT]"
  let ?Da = "replace_runs (\<lambda>c. c = DASH) 3 [DASH, DASH]"
  let ?U = "replace_runs (\<lambda>c. c = USCORE) 3 [USCORE, USCORE]"
  let ?A = "collapse_runs s"
  let ?B = "trim_lines ?A"
  let ?C = "?N ?B"
  let ?R = "trim ?C"
  note A = collapse_runs_fixed[of s]
  have sp: "is_space_tab c \<Longrightarrow> c \<noteq> NL" for c by (auto simp: is_space_tab_def)
  have plainB: "plain ?B" using assms by (intro plain_trim_lines plain_collapse_runs)
  have tightB: "tight ?B" and endsB: "ends_ok ?B" using tight_trim_lines[of ?A] by simp_all
  have SB: "?S ?B = ?B"
    by (rule replace_runs_trim_lines[OF ws_classes(1) _ _ A(1)]) (simp_all add: is_space_tab_def)
  have DoB: "?Do ?B = ?B" by (rule replace_runs_trim_lines[OF ws_classes(3) _ _ A(3)]) simp_all
  have DaB: "?Da ?B = ?B" by (rule replace_runs_trim_lines[OF ws_classes(4) _ _ A(4)]) simp_all
  have UB: "?U ?B = ?B" by (rule replace_runs_trim_lines[OF ws_classes(5) _ _ A(5)]) simp_all
  have cbl: "collapse_blank_lines ?B = ?C" using tightB by (rule collapse_blank_lines_tight)
  have plainC: "plain ?C" using plainB by (intro plain_replace_runs plain_literals)
  have tightC: "tight ?C" using tightB by (rule tight_collapse_nl)
  have "?S ?C = ?N (?S ?B)" by (rule commute_nl) (simp_all add: is_space_tab_def)
  then have SC: "?S ?C = ?C" by (simp only: SB)
  have NC: "?N ?C = ?C" by (rule replace_runs_idem) simp_all
  have "?Do ?C = ?N (?Do ?B)" by (rule commute_nl) simp_all
  then have DoC: "?Do ?C = ?C" by (simp only: DoB)
  have "?Da ?C = ?N (?Da ?B)" by (rule commute_nl) simp_all
  then have DaC: "?Da ?C = ?C" by (simp only: DaB)
  have "?U ?C = ?N (?U ?B)" by (rule commute_nl) simp_all
  then have UC: "?U ?C = ?C" by (simp only: UB)
  have plainR: "plain ?R" using plainC by (rule plain_trim)
  have tightR: "tight ?R" using tightC by (rule tight_trim)
  have endsR: "ends_ok ?R" using trim_ends[of ?C] by (auto simp: ends_ok_def)
  have SR: "?S ?R = ?R" by (rule replace_runs_trim[OF ws_classes(1) _ SC]) simp
  have NR: "?N ?R = ?R" by (rule replace_runs_trim[OF ws_classes(2) _ NC]) simp
  have DoR: "?Do ?R = ?R" by (rule replace_runs_trim[OF ws_classes(3) _ DoC]) simp
  have DaR: "?Da ?R = ?R" by (rule replace_runs_trim[OF ws_classes(4) _ DaC]) simp
  have UR: "?U ?R = ?R" by (rule replace_runs_trim[OF ws_classes(5) _ UC]) simp
  have linesR: "trim_lines ?R = ?R" using tightR endsR by (rule trim_lines_id)
  have cblR: "collapse_blank_lines ?R = ?R"
    using collapse_blank_lines_tight[OF tightR] by (simp only: NR)
  have trimR: "trim ?R = ?R" by (rule trim_idem)
  have "cleanTextForEmbedding ?R = ?R"
    using plainR SR NR DoR DaR UR linesR cblR trimR by (rule cleanTextForEmbedding_fixed)
  then show ?thesis by (simp only: cbl)
qed

text \<open>
  Where the order of the steps cannot matter: on a string that holds none of the characters
  the cleaner removes (control characters, zero-width characters, the decorative class),
  cleaning twice gives the same result as cleaning once.
\<close>

lemma cleanTextForEmbedding_idempotent_on_plain:
  assumes "plain s"
  shows "cleanTextForEmbedding (cleanTextForEmbedding s) = cleanTextForEmbedding s"
proof (cases "s = []")
  case True
  then show ?thesis by (simp add: cleanTextForEmbedding_def)
next
  case False
  from cleanTextForEmbedding_plain[OF assms False] cleaned_is_fixed[OF assms]
  show ?thesis by (simp only:)
qed

lemma cleanTextForEmbedding_idempotent_example:
  "plain [SP, 97, TAB, TAB, 98, DOT, DOT, DOT, DOT, DOT, NL, NL, NL, NL, 99, SP]
   \<and> cleanTextForEmbedding [SP, 97, TAB, TAB, 98, DOT, DOT, DOT, DOT, DOT, NL, NL, NL, NL, 99, SP]
       = [97, SP, 98, DOT, DOT, DOT, NL, NL, 99]
   \<and> cleanTextForEmbedding (cleanTextForEmbedding
         [SP, 97, TAB, TAB, 98, DOT, DOT, DOT, DOT, DOT, NL, NL, NL, NL, 99, SP])
       = cleanTextForEmbedding [SP, 97, TAB, TAB, 98, DOT, DOT, DOT, DOT, DOT, NL, NL, NL, NL, 99, SP]"
proof -
  have p: "plain [SP, 97, TAB, TAB, 98, DOT, DOT, DOT, DOT, DOT, NL, NL, NL, NL, 99, SP]"
    by (simp add: plain_def is_control_def is_zero_width_def is_decorative_def decorative_def)
  have v: "cleanTextForEmbedding [SP, 97, TAB, TAB, 98, DOT, DOT, DOT, DOT, DOT, NL, NL, NL, NL, 99, SP]
       = [97, SP, 98, DOT, DOT, DOT, NL, NL, 99]"
    by (simp add: clean_defs)
  from p v cleanTextForEmbedding_idempotent_on_plain[OF p] show ?thesis by (simp only: simp_thms)
qed

text \<open>
  C5: the cleaner is not idempotent. On the text \<open>a\<close>, space, the control character U+0001,
  space, \<open>b\<close> the first pass returns \<open>a\<close> and \<open>b\<close> with two spaces between them, and the second
  pass returns them with one space. Step 1 of the function is to leave single spaces only
  ("Multiple spaces/tabs -> single space"), but it runs before the steps that remove
  characters, so the removal of a character between two spaces leaves a run of spaces in the
  result.
\<close>

theorem cleanTextForEmbedding_not_idempotent:
  "cleanTextForEmbedding [97, SP, 1, SP, 98] = [97, SP, SP, 98]
   \<and> cleanTextForEmbedding (cleanTextForEmbedding [97, SP, 1, SP, 98]) = [97, SP, 98]
   \<and> cleanTextForEmbedding (cleanTextForEmbedding [97, SP, 1, SP, 98])
       \<noteq> cleanTextForEmbedding [97, SP, 1, SP, 98]"
  by (simp add: clean_defs)

lemma set_collapse_blank_lines: "set (collapse_blank_lines s) \<subseteq> set s"
proof (induction s rule: collapse_blank_lines.induct)
  case 1
  then show ?case by simp
next
  case (2 c cs)
  show ?case
  proof (cases "c = NL \<and> 2 \<le> count_list (takeWhile is_ws cs) NL")
    case True
    have "set (drop (last_nl_end (takeWhile is_ws cs)) cs) \<subseteq> set cs" by (rule set_drop_subset)
    with 2(1)[OF True] True show ?thesis by auto
  next
    case False
    with 2(2)[OF False] show ?thesis by auto
  qed
qed

lemma set_trim_lines: "set (trim_lines s) \<subseteq> set s"
proof (induction s rule: line_induct)
  case (single s)
  then show ?case by (simp add: trim_lines_single set_trim)
next
  case (line l rest)
  with set_trim[of l] show ?case by (auto simp: trim_lines_line)
qed

lemma replace_runs_all:
  "\<forall>x\<in>set s. Q x \<Longrightarrow> \<forall>x\<in>set rep. Q x \<Longrightarrow> \<forall>x\<in>set (replace_runs p n rep s). Q x"
  using replace_runs_set[of p n rep s] by blast

lemma cleanTextForEmbedding_is_plain: "plain (cleanTextForEmbedding s)"
proof (cases "s = []")
  case True
  then show ?thesis by (simp add: cleanTextForEmbedding_def plain_def)
next
  case False
  let ?a = "replace_runs is_space_tab 1 [SP]
              (replace_runs (\<lambda>c. c = NL) 3 [NL, NL] (replace_runs is_space_tab 1 [SP] s))"
  let ?b = "filter (\<lambda>c. \<not> is_zero_width c) (filter (\<lambda>c. \<not> is_control c) ?a)"
  let ?c = "replace_runs (\<lambda>c. c = USCORE) 3 [USCORE, USCORE]
              (replace_runs (\<lambda>c. c = DASH) 3 [DASH, DASH]
                (replace_runs (\<lambda>c. c = DOT) 4 [DOT, DOT, DOT] ?b))"
  let ?d = "filter (\<lambda>c. \<not> is_decorative c) ?c"
  have b: "\<forall>x\<in>set ?b. \<not> is_control x \<and> \<not> is_zero_width x" by auto
  let ?Q = "\<lambda>x. \<not> is_control x \<and> \<not> is_zero_width x"
  have lit: "\<forall>x\<in>set [DOT, DOT, DOT]. ?Q x" "\<forall>x\<in>set [DASH, DASH]. ?Q x"
    "\<forall>x\<in>set [USCORE, USCORE]. ?Q x"
    by (simp_all add: is_control_def is_zero_width_def)
  have c1: "\<forall>x\<in>set (replace_runs (\<lambda>c. c = DOT) 4 [DOT, DOT, DOT] ?b). ?Q x"
    using b lit(1) by (rule replace_runs_all[where Q = ?Q])
  have c2: "\<forall>x\<in>set (replace_runs (\<lambda>c. c = DASH) 3 [DASH, DASH]
                (replace_runs (\<lambda>c. c = DOT) 4 [DOT, DOT, DOT] ?b)). ?Q x"
    using c1 lit(2) by (rule replace_runs_all[where Q = ?Q])
  have c: "\<forall>x\<in>set ?c. ?Q x"
    using c2 lit(3) by (rule replace_runs_all[where Q = ?Q])
  have d: "plain ?d"
    unfolding plain_def
  proof
    fix x
    assume "x \<in> set ?d"
    then have "x \<in> set ?c \<and> \<not> is_decorative x" by (simp only: set_filter mem_Collect_eq simp_thms)
    with c show "\<not> is_control x \<and> \<not> is_zero_width x \<and> \<not> is_decorative x" by blast
  qed
  have s1: "set (trim_lines ?d) \<subseteq> set ?d" by (rule set_trim_lines)
  have s2: "set (collapse_blank_lines (trim_lines ?d)) \<subseteq> set (trim_lines ?d)"
    by (rule set_collapse_blank_lines)
  have s3: "set (trim (collapse_blank_lines (trim_lines ?d)))
              \<subseteq> set (collapse_blank_lines (trim_lines ?d))"
    by (rule set_trim)
  have "set (trim (collapse_blank_lines (trim_lines ?d))) \<subseteq> set ?d"
    by (rule subset_trans[OF s3 subset_trans[OF s2 s1]])
  with d have "plain (trim (collapse_blank_lines (trim_lines ?d)))"
    unfolding plain_def by blast
  then show ?thesis
    using False by (simp only: cleanTextForEmbedding_def Let_def if_False normalize_quotes_id)
qed

text \<open>After one pass nothing is left to remove, so a second pass always reaches a fixed point.\<close>

lemma cleanTextForEmbedding_stable_after_two:
  "cleanTextForEmbedding (cleanTextForEmbedding (cleanTextForEmbedding s))
     = cleanTextForEmbedding (cleanTextForEmbedding s)"
  using cleanTextForEmbedding_is_plain by (rule cleanTextForEmbedding_idempotent_on_plain)

subsection \<open>Numbers\<close>

lemma spacing_down_numeral:
  "spacing_down (numeral n) x u
     = (if 2 ^ 52 * u \<le> x then u else spacing_down (pred_numeral n) x (u / 2))"
  by (simp add: numeral_eq_Suc)

lemma spacing_up_numeral:
  "spacing_up (numeral n) x u
     = (if x < 2 ^ 53 * u then u else spacing_up (pred_numeral n) x (2 * u))"
  by (simp add: numeral_eq_Suc)

lemmas double_eval =
  double_def spacing_def round_half_even_def spacing_down_numeral spacing_up_numeral Let_def

lemma double_0: "double 0 = 0"
  by (simp add: double_def round_half_even_def)

text \<open>
  The doubles nearest to 0.9, 0.6 and 0.4; the product of 0.9 and 100 is 90 after rounding,
  that of 0.285 and 100 is below 28.5.
\<close>

lemma double_values:
  "double (9 / 10) = 8106479329266893 / 9007199254740992"
  "double (3 / 5) = 5404319552844595 / 9007199254740992"
  "double (2 / 5) = 3602879701896397 / 9007199254740992"
  by (simp_all add: double_eval)

lemma js_ge_floor: "js_ge (9 / 10) (3 / 5)" "\<not> js_ge (2 / 5) (3 / 5)"
  by (simp_all add: js_ge_def double_values)

lemma js_times_90: "js_times (9 / 10) 100 = 90"
  by (simp add: js_times_def double_eval)

lemma percent_90: "toFixed0 (js_times (9 / 10) 100) = [57, 48]"
  by (simp add: js_times_90 toFixed0_def)

lemma percent_28: "toFixed0 (js_times (285 / 1000) 100) = [50, 56]"
  by (simp add: js_times_def double_eval toFixed0_def)

subsection \<open>Retrieval\<close>

lemma demo_query: "cleanQueryText [104, 105] = [104, 105]"
  by (simp add: clean_defs)

lemma demo_text: "getTextFromMessage demo_user = [104, 105]"
  by (simp add: getTextFromMessage_def demo_user_def)

lemma demo_role: "role demo_user = User"
  by (simp add: demo_user_def)

lemma highQuality_empty:
  "\<forall>d\<in>set docs. \<not> js_ge (similarity d) m \<Longrightarrow> highQuality m docs = []"
  by (simp add: highQuality_def filter_empty_conv)

lemma retrieve_attempt_unchanged:
  assumes none: "\<And>v docs. embed_query svc (cleanQueryText (getTextFromMessage m)) = Inr v
             \<Longrightarrow> searchSimilarDocuments svc
                   \<lparr>sp_embedding = v, sp_limit = 3, sp_knowledgeBaseId = None,
                    sp_similarityThreshold = 0, sp_userId = u\<rparr> = Inr docs
             \<Longrightarrow> \<forall>d\<in>set docs. \<not> js_ge (similarity d) 0"
    and run: "retrieve_attempt svc m ui u = Inr r"
  shows "updatedMessages r = ui"
proof -
  have empty: "highQuality 0 (map f docs) = []"
    if "embed_query svc (cleanQueryText (getTextFromMessage m)) = Inr v"
      "searchSimilarDocuments svc
         \<lparr>sp_embedding = v, sp_limit = 3, sp_knowledgeBaseId = None,
          sp_similarityThreshold = 0, sp_userId = u\<rparr> = Inr docs"
      "\<And>d. similarity (f d) = similarity d" for v docs f
    using none[OF that(1,2)] that(3) by (intro highQuality_empty) simp
  show ?thesis
    using run unfolding retrieve_attempt_def Let_def bind_err_def
    by (auto split: if_splits sum.splits simp: empty)
qed

lemma chat_retrieve_attempt_unchanged:
  assumes none: "\<And>v docs. embed_query svc (cleanQueryText (getTextFromMessage m)) = Inr v
             \<Longrightarrow> searchSimilarDocuments svc
                   \<lparr>sp_embedding = v, sp_limit = 5, sp_knowledgeBaseId = None,
                    sp_similarityThreshold =
                      (if length (cleanQueryText (getTextFromMessage m)) < 10 then 0.5 else 0.7),
                    sp_userId = u\<rparr> = Inr docs
             \<Longrightarrow> \<forall>d\<in>set docs. \<not> js_ge (similarity d) 0.6"
    and run: "chat_retrieve_attempt svc m ui u = Inr r"
  shows "updatedMessages r = ui"
proof -
  have empty: "highQuality (3 / 5) docs = []"
    if "embed_query svc (cleanQueryText (getTextFromMessage m)) = Inr v"
      "searchSimilarDocuments svc
         \<lparr>sp_embedding = v, sp_limit = 5, sp_knowledgeBaseId = None,
          sp_similarityThreshold =
            (if length (cleanQueryText (getTextFromMessage m)) < 10 then 0.5 else 0.7),
          sp_userId = u\<rparr> = Inr docs" for v docs
    using none[OF that(1,2)] by (intro highQuality_empty) simp
  show ?thesis
    using run unfolding chat_retrieve_attempt_def Let_def bind_err_def
    by (auto split: if_splits sum.splits simp: empty)
qed

text \<open>
  C2: when the vector search made for the requesting user returns no chunk, or no document it
  returns reaches the display floor (0 in \<open>retrieveRelevantContext\<close>, 0.6 in the chat route),
  no message is inserted: the message sequence returned is the input sequence. Only the search
  of this run is concerned (the embedding of the cleaned query, for this user, with the limit
  and threshold the code passes): what the store returns for other users or other queries plays
  no part. In the chat route the input sequence is the list built from the stored messages and
  the new message, or the list sent for a tool approval.
\<close>

theorem retrieval_without_documents:
  "((\<forall>m u v docs. message = Some m \<longrightarrow> userId = Some u
        \<longrightarrow> embed_query svc (cleanQueryText (getTextFromMessage m)) = Inr v
        \<longrightarrow> searchSimilarDocuments svc
              \<lparr>sp_embedding = v, sp_limit = 3, sp_knowledgeBaseId = None,
               sp_similarityThreshold = 0, sp_userId = u\<rparr> = Inr docs
        \<longrightarrow> (\<forall>d\<in>set docs. \<not> js_ge (similarity d) 0)) \<longrightarrow>
      updatedMessages (retrieveRelevantContext svc message uiMessages userId isToolApprovalFlow)
        = uiMessages)
   \<and> ((\<forall>m u v docs. message = Some m \<longrightarrow> userId = Some u
        \<longrightarrow> embed_query svc (cleanQueryText (getTextFromMessage m)) = Inr v
        \<longrightarrow> searchSimilarDocuments svc
              \<lparr>sp_embedding = v, sp_limit = 5, sp_knowledgeBaseId = None,
               sp_similarityThreshold =
                 (if length (cleanQueryText (getTextFromMessage m)) < 10 then 0.5 else 0.7),
               sp_userId = u\<rparr> = Inr docs
        \<longrightarrow> (\<forall>d\<in>set docs. \<not> js_ge (similarity d) 0.6)) \<longrightarrow>
      updatedMessages (chat_POST_retrieval svc message messages messagesFromDb userId)
        = (case messages of Some ms \<Rightarrow> map Some ms | None \<Rightarrow> map Some messagesFromDb @ [message]))"
proof (intro conjI impI)
  assume h: "\<forall>m u v docs. message = Some m \<longrightarrow> userId = Some u
        \<longrightarrow> embed_query svc (cleanQueryText (getTextFromMessage m)) = Inr v
        \<longrightarrow> searchSimilarDocuments svc
              \<lparr>sp_embedding = v, sp_limit = 3, sp_knowledgeBaseId = None,
               sp_similarityThreshold = 0, sp_userId = u\<rparr> = Inr docs
        \<longrightarrow> (\<forall>d\<in>set docs. \<not> js_ge (similarity d) 0)"
  show "updatedMessages (retrieveRelevantContext svc message uiMessages userId isToolApprovalFlow)
        = uiMessages"
  proof (cases "\<exists>m u. message = Some m \<and> userId = Some u")
    case False
    then show ?thesis
      by (cases message; cases userId) (simp_all add: retrieveRelevantContext_def is_set_def)
  next
    case True
    then obtain m u where mu: "message = Some m" "userId = Some u" by blast
    with h have "\<And>v docs. embed_query svc (cleanQueryText (getTextFromMessage m)) = Inr v
             \<Longrightarrow> searchSimilarDocuments svc
                   \<lparr>sp_embedding = v, sp_limit = 3, sp_knowledgeBaseId = None,
                    sp_similarityThreshold = 0, sp_userId = u\<rparr> = Inr docs
             \<Longrightarrow> \<forall>d\<in>set docs. \<not> js_ge (similarity d) 0"
      by blast
    from retrieve_attempt_unchanged[of svc m u, OF this] mu show ?thesis
      unfolding retrieveRelevantContext_def by (auto split: sum.splits)
  qed
next
  assume h: "\<forall>m u v docs. message = Some m \<longrightarrow> userId = Some u
        \<longrightarrow> embed_query svc (cleanQueryText (getTextFromMessage m)) = Inr v
        \<longrightarrow> searchSimilarDocuments svc
              \<lparr>sp_embedding = v, sp_limit = 5, sp_knowledgeBaseId = None,
               sp_similarityThreshold =
                 (if length (cleanQueryText (getTextFromMessage m)) < 10 then 0.5 else 0.7),
               sp_userId = u\<rparr> = Inr docs
        \<longrightarrow> (\<forall>d\<in>set docs. \<not> js_ge (similarity d) 0.6)"
  show "updatedMessages (chat_POST_retrieval svc message messages messagesFromDb userId)
        = (case messages of Some ms \<Rightarrow> map Some ms | None \<Rightarrow> map Some messagesFromDb @ [message])"
  proof (cases "\<exists>m u. message = Some m \<and> userId = Some u")
    case False
    then show ?thesis
      by (cases message; cases userId)
         (simp_all add: chat_POST_retrieval_def is_set_def split: option.splits)
  next
    case True
    then obtain m u where mu: "message = Some m" "userId = Some u" by blast
    with h have "\<And>v docs. embed_query svc (cleanQueryText (getTextFromMessage m)) = Inr v
             \<Longrightarrow> searchSimilarDocuments svc
                   \<lparr>sp_embedding = v, sp_limit = 5, sp_knowledgeBaseId = None,
                    sp_similarityThreshold =
                      (if length (cleanQueryText (getTextFromMessage m)) < 10 then 0.5 else 0.7),
                    sp_userId = u\<rparr> = Inr docs
             \<Longrightarrow> \<forall>d\<in>set docs. \<not> js_ge (similarity d) 0.6"
      by blast
    from chat_retrieve_attempt_unchanged[of svc m u, OF this] mu show ?thesis
      unfolding chat_POST_retrieval_def Let_def by (auto split: sum.splits option.splits)
  qed
qed


theorem retrieval_without_documents_witness:
  "updatedMessages (retrieveRelevantContext (demo_retrieval []) (Some demo_user)
       [Some demo_earlier, Some demo_user] (Some [117, 49]) False)
     = [Some demo_earlier, Some demo_user]
   \<and> updatedMessages (chat_POST_retrieval (demo_retrieval [demo_doc_low]) (Some demo_user) None
       [demo_earlier] (Some [117, 49]))
     = [Some demo_earlier, Some demo_user]"
  using retrieval_without_documents[where svc = "demo_retrieval []" and message = "Some demo_user"
          and uiMessages = "[Some demo_earlier, Some demo_user]" and userId = "Some [117, 49]"
          and isToolApprovalFlow = False]
        retrieval_without_documents[where svc = "demo_retrieval [demo_doc_low]"
          and message = "Some demo_user" and messages = None and messagesFromDb = "[demo_earlier]"
          and userId = "Some [117, 49]"]
  by (simp add: demo_retrieval_def demo_doc_low_def js_ge_floor)

lemma retrieve_attempt_shape:
  "retrieve_attempt svc m ui u = Inr r \<Longrightarrow>
     updatedMessages r = ui \<or> (\<exists>d. updatedMessages r = insertBeforeLast d ui)"
  unfolding retrieve_attempt_def Let_def bind_err_def
  by (auto split: if_splits sum.splits)

lemma chat_retrieve_attempt_shape:
  "chat_retrieve_attempt svc m ui u = Inr r \<Longrightarrow>
     updatedMessages r = ui \<or> (\<exists>d. updatedMessages r = insertBeforeLast d ui)"
  unfolding chat_retrieve_attempt_def Let_def bind_err_def
  by (auto split: if_splits sum.splits)

lemma insertBeforeLast_snoc: "insertBeforeLast d (xs @ [x]) = xs @ [Some d, x]"
  by (simp add: insertBeforeLast_def)

lemma insertBeforeLast_nonempty:
  "ui \<noteq> [] \<Longrightarrow> insertBeforeLast d ui = butlast ui @ [Some d, last ui]"
  by (simp add: insertBeforeLast_def)

text \<open>
  C10: the list returned by \<open>retrieveRelevantContext\<close> is the input list, or the input list
  with one new message inserted just before its last element (at position \<open>n - 1\<close> of \<open>n\<close>);
  every input message is kept, unchanged and in its place. The input list is the one the
  caller passes: the list it built from the stored messages and the new message, which is
  never empty, or the list it was sent for a tool approval. The chat route, which builds the
  same list, returns the list sent for a tool approval unchanged, and otherwise its list with
  at most one new message inserted just before the new message.
\<close>

theorem retrieval_preserves_messages:
  "(uiMessages \<noteq> [] \<or> isToolApprovalFlow \<longrightarrow>
      updatedMessages (retrieveRelevantContext svc message uiMessages userId isToolApprovalFlow)
        = uiMessages
      \<or> (\<exists>documentsMessage.
           updatedMessages (retrieveRelevantContext svc message uiMessages userId isToolApprovalFlow)
             = butlast uiMessages @ [Some documentsMessage, last uiMessages]
           \<and> butlast uiMessages @ [Some documentsMessage, last uiMessages]
             = take (length uiMessages - 1) uiMessages @ [Some documentsMessage]
               @ drop (length uiMessages - 1) uiMessages))
   \<and> (updatedMessages (chat_POST_retrieval svc message (Some ms) messagesFromDb userId) = map Some ms)
   \<and> (updatedMessages (chat_POST_retrieval svc message None messagesFromDb userId)
         = map Some messagesFromDb @ [message]
       \<or> (\<exists>documentsMessage.
            updatedMessages (chat_POST_retrieval svc message None messagesFromDb userId)
              = map Some messagesFromDb @ [Some documentsMessage, message]))"
proof (intro conjI impI)
  assume reachable: "uiMessages \<noteq> [] \<or> isToolApprovalFlow"
  show "updatedMessages (retrieveRelevantContext svc message uiMessages userId isToolApprovalFlow)
        = uiMessages
      \<or> (\<exists>documentsMessage.
           updatedMessages (retrieveRelevantContext svc message uiMessages userId isToolApprovalFlow)
             = butlast uiMessages @ [Some documentsMessage, last uiMessages]
           \<and> butlast uiMessages @ [Some documentsMessage, last uiMessages]
             = take (length uiMessages - 1) uiMessages @ [Some documentsMessage]
               @ drop (length uiMessages - 1) uiMessages)"
  proof (cases "uiMessages = []")
    case True
    with reachable show ?thesis by (simp add: retrieveRelevantContext_def)
  next
    case False
    then have position: "butlast uiMessages @ [Some d, last uiMessages]
             = take (length uiMessages - 1) uiMessages @ [Some d] @ drop (length uiMessages - 1) uiMessages"
      for d
      by (cases uiMessages rule: rev_cases) (simp_all add: butlast_conv_take)
    show ?thesis
      unfolding retrieveRelevantContext_def
      using retrieve_attempt_shape[of svc "the message" uiMessages "the userId"] False position
      by (auto split: sum.splits simp: insertBeforeLast_nonempty)
  qed
next
  show "updatedMessages (chat_POST_retrieval svc message (Some ms) messagesFromDb userId) = map Some ms"
    by (simp add: chat_POST_retrieval_def)
next
  show "updatedMessages (chat_POST_retrieval svc message None messagesFromDb userId)
         = map Some messagesFromDb @ [message]
       \<or> (\<exists>documentsMessage.
            updatedMessages (chat_POST_retrieval svc message None messagesFromDb userId)
              = map Some messagesFromDb @ [Some documentsMessage, message])"
    unfolding chat_POST_retrieval_def Let_def
    using chat_retrieve_attempt_shape[of svc "the message" "map Some messagesFromDb @ [message]" "the userId"]
    by (auto split: sum.splits simp: insertBeforeLast_snoc)
qed

lemma demo_chat_run:
  "updatedMessages (retrieveRelevantContext (demo_retrieval [demo_doc_high]) (Some demo_user)
      [Some demo_earlier, Some demo_user] (Some [117, 49]) False)
   = [Some demo_earlier,
      Some \<lparr>msg_id = [117], role = System, parts = [TextPart (contextText [demo_doc_high])]\<rparr>,
      Some demo_user]"
  by (simp add: retrieveRelevantContext_def retrieve_attempt_def demo_text demo_query demo_role
       is_set_def demo_retrieval_def highQuality_def insertBeforeLast_def trim_def is_ws_def
       demo_doc_high_def Let_def js_ge_def double_0 double_values)

theorem retrieval_preserves_messages_witness:
  "length [Some demo_earlier, Some demo_user] = 2
   \<and> (\<exists>documentsMessage.
        updatedMessages (retrieveRelevantContext (demo_retrieval [demo_doc_high]) (Some demo_user)
          [Some demo_earlier, Some demo_user] (Some [117, 49]) False)
        = [Some demo_earlier, Some documentsMessage, Some demo_user])"
  using retrieval_preserves_messages[where svc = "demo_retrieval [demo_doc_high]"
          and message = "Some demo_user" and uiMessages = "[Some demo_earlier, Some demo_user]"
          and userId = "Some [117, 49]" and isToolApprovalFlow = False]
        demo_chat_run
  by auto

lemma sorted_highQuality:
  "sorted_wrt (\<lambda>x y. double (similarity x) \<ge> double (similarity y)) (highQuality m docs)"
proof -
  have "sorted (map (\<lambda>d. - double (similarity d)) (highQuality m docs))"
    by (simp add: highQuality_def)
  then show ?thesis
    by (simp add: sorted_map sorted_wrt_iff_nth_less)
qed

lemma set_highQuality:
  "set (highQuality m docs) = {d \<in> set docs. js_ge (similarity d) m}"
  by (auto simp: highQuality_def)

lemma highQuality_two:
  assumes "similarity a = 0.9" "similarity b = 0.4" "docs = [a, b] \<or> docs = [b, a]"
  shows "highQuality 0.6 docs = [a]"
  using assms(3) by (auto simp: highQuality_def assms(1,2) js_ge_floor)

text \<open>
  C1: in the chat route (display floor 0.6), when the search the route makes for the user
  returns two chunks with similarities 0.9 and 0.4, in either order, exactly one context
  message is built. Its text is the heading for one document, the title, the percentage (90)
  and the content of the 0.9 chunk, and the closing instruction: nothing of the 0.4 chunk. The
  message is inserted immediately before the triggering user message, the last message of the
  list. Whatever the search returns, the surviving documents are those that reach the floor,
  in descending order of similarity.
\<close>

theorem context_injected_before_user_message:
  assumes "role m = User" and "userId = Some u" and "u \<noteq> []"
    and "length (trim (getTextFromMessage m)) > 0"
    and "length (trim (cleanQueryText (getTextFromMessage m))) > 0"
    and "embed_query svc (cleanQueryText (getTextFromMessage m)) = Inr v"
    and "searchSimilarDocuments svc
           \<lparr>sp_embedding = v, sp_limit = 5, sp_knowledgeBaseId = None,
            sp_similarityThreshold =
              (if length (cleanQueryText (getTextFromMessage m)) < 10 then 0.5 else 0.7),
            sp_userId = u\<rparr> = Inr docs"
    and "docs = [a, b] \<or> docs = [b, a]"
    and "similarity a = 0.9" and "similarity b = 0.4"
  shows "updatedMessages (chat_POST_retrieval svc (Some m) None messagesFromDb userId)
           = map Some messagesFromDb
             @ [Some \<lparr>msg_id = generateUUID svc, role = User,
                      parts = [TextPart
                        (str ''**Knowledge Base Context** (1 relevant document):'' @ [NL, NL]
                         @ [55357, 56516] @ str '' **'' @ show_title (documentTitle a)
                         @ str ''** (90% relevant)'' @ [NL] @ content a @ [NL, NL]
                         @ str ''*Use information from these documents to answer the user''
                         @ [39]
                         @ str ''s question. Cite the document title when referencing specific information.*'')]\<rparr>,
                Some m]
         \<and> highQuality 0.6 docs = [a]
         \<and> set (highQuality 0.6 found) = {d \<in> set found. js_ge (similarity d) 0.6}
         \<and> sorted_wrt (\<lambda>x y. double (similarity x) \<ge> double (similarity y)) (highQuality 0.6 found)"
proof -
  have hq: "highQuality 0.6 docs = [a]"
    using assms(8-10) by (rule_tac highQuality_two) auto
  have ne: "docs \<noteq> []" using assms(8) by auto
  have nonblank: "getTextFromMessage m \<noteq> []" "cleanQueryText (getTextFromMessage m) \<noteq> []"
    using assms(4,5) by (auto simp: trim_def)
  have shown: "contextText [a]
      = str ''**Knowledge Base Context** (1 relevant document):'' @ [NL, NL]
        @ [55357, 56516] @ str '' **'' @ show_title (documentTitle a)
        @ str ''** (90% relevant)'' @ [NL] @ content a @ [NL, NL]
        @ str ''*Use information from these documents to answer the user''
        @ [39]
        @ str ''s question. Cite the document title when referencing specific information.*''"
    by (simp add: contextText_def documentsText_def formatDocument_def assms(9) percent_90 str_def)
  have "chat_retrieve_attempt svc m (map Some messagesFromDb @ [Some m]) u
          = Inr \<lparr>updatedMessages = insertBeforeLast
                   \<lparr>msg_id = generateUUID svc, role = User, parts = [TextPart (contextText [a])]\<rparr>
                   (map Some messagesFromDb @ [Some m]),
                 retrievedDocuments = docs\<rparr>"
    unfolding chat_retrieve_attempt_def Let_def
    using assms(4,5,6) nonblank ne hq by (simp add: assms(7))
  then have "updatedMessages (chat_POST_retrieval svc (Some m) None messagesFromDb userId)
      = map Some messagesFromDb
        @ [Some \<lparr>msg_id = generateUUID svc, role = User, parts = [TextPart (contextText [a])]\<rparr>,
           Some m]"
    using assms(1-3)
    by (simp add: chat_POST_retrieval_def insertBeforeLast_snoc is_set_def)
  then show ?thesis
    using hq sorted_highQuality[of "0.6" found] set_highQuality[of "0.6" found]
    by (simp only: shown simp_thms)
qed

theorem context_injected_before_user_message_witness:
  "updatedMessages (chat_POST_retrieval (demo_retrieval [demo_doc_low, demo_doc_high])
      (Some demo_user) None [demo_earlier] (Some [117, 49]))
   = [Some demo_earlier,
      Some \<lparr>msg_id = [117], role = User,
            parts = [TextPart
              (str ''**Knowledge Base Context** (1 relevant document):'' @ [NL, NL]
               @ [55357, 56516] @ str '' **A** (90% relevant)'' @ [NL] @ str ''aa'' @ [NL, NL]
               @ str ''*Use information from these documents to answer the user''
               @ [39]
               @ str ''s question. Cite the document title when referencing specific information.*'')]\<rparr>,
      Some demo_user]"
  using context_injected_before_user_message[where svc = "demo_retrieval [demo_doc_low, demo_doc_high]"
          and m = demo_user and userId = "Some [117, 49]" and u = "[117, 49]"
          and v = "JArr [JNum 1]"
          and docs = "[demo_doc_low, demo_doc_high]" and a = demo_doc_high and b = demo_doc_low
          and messagesFromDb = "[demo_earlier]"]
  by (simp add: demo_role demo_text demo_query trim_def is_ws_def demo_retrieval_def
        demo_doc_high_def demo_doc_low_def show_title_def str_def)

subsection \<open>Query rewriter\<close>

lemma response_text_Some:
  "completion_content data = Some s \<Longrightarrow> response_text data = Inr (trim s)"
  by (cases data)
     (auto simp: response_text_def first_element_def
           split: option.splits jsval.splits list.splits)

lemma response_text_None:
  "completion_content data = None \<Longrightarrow> \<exists>message. response_text data = Inl (Error message)"
  by (cases data)
     (auto simp: response_text_def first_element_def invalid_response_def bind_err_def
           split: option.splits jsval.splits list.splits)

text \<open>
  C3: \<open>rewriteQuery\<close> returns a result on every input (it has no throwing outcome), and
  whenever the API key is missing, the request is rejected (network error), the response is not
  a 2xx response, its body is not JSON, or the JSON lacks the shape
  \<open>{choices: [{message: {content: string}}]}\<close>, the result keeps the current query as the
  rewritten query, with \<open>success\<close> false and an error message.
\<close>

theorem rewriteQuery_fails_open:
  assumes "\<not> is_set apiKey
     \<or> (\<exists>e. fetch (rewrite_request (the apiKey) currentQuery conversationHistory maxHistoryMessages) = Inl e)
     \<or> (\<exists>response.
           fetch (rewrite_request (the apiKey) currentQuery conversationHistory maxHistoryMessages)
             = Inr response
           \<and> (\<not> ok response
              \<or> (\<exists>e. body_json response = Inl e)
              \<or> (\<exists>data. body_json response = Inr data \<and> completion_content data = None)))"
  shows "\<exists>message.
           rewriteQuery apiKey fetch currentQuery conversationHistory maxHistoryMessages
             = \<lparr>originalQuery = currentQuery, rewrittenQuery = currentQuery, success = False,
                error = Some message\<rparr>"
proof (cases "is_set apiKey")
  case False
  then show ?thesis by (simp add: rewriteQuery_def)
next
  case True
  let ?req = "rewrite_request (the apiKey) currentQuery conversationHistory maxHistoryMessages"
  from assms True consider
      (rejected) e where "fetch ?req = Inl e"
    | (status) response where "fetch ?req = Inr response" "\<not> ok response"
    | (body) response e where "fetch ?req = Inr response" "ok response" "body_json response = Inl e"
    | (shape) response data where "fetch ?req = Inr response" "ok response"
        "body_json response = Inr data" "completion_content data = None"
    by blast
  then have "\<exists>e. rewrite_attempt (the apiKey) fetch currentQuery conversationHistory maxHistoryMessages = Inl e"
  proof cases
    case rejected
    then show ?thesis by (simp add: rewrite_attempt_def)
  next
    case status
    then show ?thesis by (simp add: rewrite_attempt_def)
  next
    case body
    then show ?thesis by (simp add: rewrite_attempt_def)
  next
    case shape
    from response_text_None[OF shape(4)] obtain message where "response_text data = Inl (Error message)" ..
    with shape show ?thesis by (simp add: rewrite_attempt_def)
  qed
  then show ?thesis using True by (auto simp: rewriteQuery_def)
qed

theorem rewriteQuery_fails_open_witness:
  "rewriteQuery (Some [107]) (demo_chat_endpoint (Inl (Error [110, 101, 116]))) [113] [] 5
     = \<lparr>originalQuery = [113], rewrittenQuery = [113], success = False,
        error = Some [110, 101, 116]\<rparr>
   \<and> success (rewriteQuery (Some [107])
        (demo_chat_endpoint (Inr (Response True 200 [79, 75] [] (Inr (JObj [(''choices'', JArr [])])))))
        [113] [] 5) = False"
  using rewriteQuery_fails_open[where apiKey = "Some [107]"
          and fetch = "demo_chat_endpoint (Inl (Error [110, 101, 116]))"
          and currentQuery = "[113]" and conversationHistory = "[]" and maxHistoryMessages = 5]
        rewriteQuery_fails_open[where apiKey = "Some [107]"
          and fetch = "demo_chat_endpoint (Inr (Response True 200 [79, 75] [] (Inr (JObj [(''choices'', JArr [])]))))"
          and currentQuery = "[113]" and conversationHistory = "[]" and maxHistoryMessages = 5]
  by (auto simp: demo_chat_endpoint_def rewriteQuery_def rewrite_attempt_def is_set_def)

text \<open>
  C8 (as amended): when the upstream answer, once the whitespace around it is trimmed, is not
  empty and is longer than five times the current query, \<open>rewriteQuery\<close> returns the current
  query as the rewritten query with \<open>success\<close> false; a 120-character answer without
  surrounding whitespace to a 20-character query is such a case.
\<close>

theorem rewriteQuery_rejects_long_answer:
  assumes "is_set apiKey"
    and "fetch (rewrite_request (the apiKey) currentQuery conversationHistory maxHistoryMessages)
           = Inr response"
    and "ok response"
    and "body_json response = Inr data"
    and "completion_content data = Some answer"
    and "trim answer \<noteq> []"
    and "length (trim answer) > 5 * length currentQuery"
  shows "rewriteQuery apiKey fetch currentQuery conversationHistory maxHistoryMessages
           = \<lparr>originalQuery = currentQuery, rewrittenQuery = currentQuery, success = False,
              error = Some (str ''Rewritten query too long'')\<rparr>"
  using assms response_text_Some[OF assms(5)]
  by (simp add: rewriteQuery_def rewrite_attempt_def mult.commute)

lemma trim_replicate: "\<not> is_ws c \<Longrightarrow> trim (replicate n c) = replicate n c"
  by (cases n) (simp_all add: trim_def replicate_append_same[symmetric] del: replicate_Suc)

theorem rewriteQuery_rejects_long_answer_witness:
  "rewriteQuery (Some [107])
     (demo_chat_endpoint (Inr (Response True 200 [79, 75] [] (Inr (demo_completion (replicate 120 97))))))
     (replicate 20 113) [] 5
   = \<lparr>originalQuery = replicate 20 113, rewrittenQuery = replicate 20 113, success = False,
      error = Some (str ''Rewritten query too long'')\<rparr>"
  using rewriteQuery_rejects_long_answer[where apiKey = "Some [107]"
          and fetch = "demo_chat_endpoint (Inr (Response True 200 [79, 75] [] (Inr (demo_completion (replicate 120 97)))))"
          and currentQuery = "replicate 20 113" and conversationHistory = "[]"
          and maxHistoryMessages = 5 and answer = "replicate 120 97"
          and data = "demo_completion (replicate 120 97)"]
  by (simp add: demo_chat_endpoint_def demo_completion_def is_set_def trim_replicate is_ws_def)

lemma dropWhile_replicate_append: "P x \<Longrightarrow> dropWhile P (replicate n x @ ys) = dropWhile P ys"
  by (induction n) auto

lemma trim_padded: "\<not> is_ws c \<Longrightarrow> trim (c # replicate n SP) = [c]"
proof -
  assume c: "\<not> is_ws c"
  have sp: "is_ws SP" by (simp add: is_ws_def)
  show ?thesis
    using c by (simp add: trim_def dropWhile_replicate_append[of is_ws SP, OF sp])
qed

text \<open>
  The length that is compared is that of the trimmed answer: an answer of 120 characters,
  the letter \<open>a\<close> and 119 spaces, to a query of 20 characters is accepted as the rewritten
  query \<open>a\<close>, with \<open>success\<close> true.
\<close>

theorem padded_answer_is_accepted:
  "length (97 # replicate 119 SP) = 120
   \<and> length (97 # replicate 119 SP) > 5 * length (replicate 20 (113 :: nat))
   \<and> rewriteQuery (Some [107])
        (demo_chat_endpoint
           (Inr (Response True 200 [79, 75] [] (Inr (demo_completion (97 # replicate 119 SP))))))
        (replicate 20 113) [] 5
      = \<lparr>originalQuery = replicate 20 113, rewrittenQuery = [97], success = True, error = None\<rparr>"
proof -
  have content: "response_text (demo_completion (97 # replicate 119 SP)) = Inr [97]"
    using response_text_Some[of "demo_completion (97 # replicate 119 SP)" "97 # replicate 119 SP"]
    by (simp add: demo_completion_def trim_padded is_ws_def)
  show ?thesis
    by (simp add: rewriteQuery_def rewrite_attempt_def demo_chat_endpoint_def is_set_def content)
qed

subsection \<open>Deduplication\<close>

lemma findIndex_None: "findIndex p xs = None \<longleftrightarrow> (\<forall>x\<in>set xs. \<not> p x)"
  by (induction xs) auto

lemma findIndex_append:
  "findIndex p (xs @ ys) =
     (case findIndex p xs of Some i \<Rightarrow> Some i
      | None \<Rightarrow> map_option (\<lambda>j. length xs + j) (findIndex p ys))"
  by (induction xs) (cases "findIndex p ys"; auto split: option.splits)+

lemma findIndex_less: "findIndex p xs = Some i \<Longrightarrow> i < length xs"
  by (induction xs arbitrary: i) (auto split: if_splits)

lemma findIndex_at_head:
  "findIndex p (seen @ c # cs) = Some (length seen) \<longleftrightarrow> p c \<and> (\<forall>x\<in>set seen. \<not> p x)"
proof (cases "findIndex p seen")
  case None
  then show ?thesis using findIndex_None[of p seen] by (auto simp: findIndex_append)
next
  case (Some i)
  then have "i < length seen" by (rule findIndex_less)
  moreover from Some have "\<exists>x\<in>set seen. p x"
    using findIndex_None[of p seen] by auto
  ultimately show ?thesis using Some by (auto simp: findIndex_append)
qed

lemma keep_first_cong:
  "set seen = set seen' \<Longrightarrow> keep_first seen cs = keep_first seen' cs"
proof (induction cs arbitrary: seen seen')
  case Nil
  then show ?case by simp
next
  case (Cons c cs)
  from Cons.prems have "set (trim (chunk_text c) # seen) = set (trim (chunk_text c) # seen')"
    by simp
  from Cons.IH[OF this] Cons.IH[OF Cons.prems] Cons.prems show ?case by simp
qed

lemma unique_from:
  "map snd (filter (\<lambda>(index, chunk).
       findIndex (\<lambda>c. trim (chunk_text c) = trim (chunk_text chunk)) (pre @ cs) = Some index)
     (enumerate (length pre) cs))
   = keep_first (map (\<lambda>c. trim (chunk_text c)) pre) cs"
proof (induction cs arbitrary: pre)
  case Nil
  then show ?case by simp
next
  case (Cons c cs)
  let ?key = "\<lambda>c. trim (chunk_text c)"
  have rest: "map snd (filter (\<lambda>(index, chunk).
       findIndex (\<lambda>c. ?key c = ?key chunk) (pre @ c # cs) = Some index)
     (enumerate (Suc (length pre)) cs))
     = keep_first (map ?key pre @ [?key c]) cs"
    using Cons.IH[of "pre @ [c]"] by simp
  have head: "findIndex (\<lambda>x. ?key x = ?key c) (pre @ c # cs) = Some (length pre)
      \<longleftrightarrow> ?key c \<notin> set (map ?key pre)"
    by (subst findIndex_at_head) (force simp: image_iff)
  show ?case
  proof (cases "?key c \<in> set (map ?key pre)")
    case True
    then have "set (map ?key pre @ [?key c]) = set (map ?key pre)" by auto
    from keep_first_cong[OF this] True head rest show ?thesis by simp
  next
    case False
    have "set (map ?key pre @ [?key c]) = set (?key c # map ?key pre)" by auto
    from keep_first_cong[OF this] False head rest show ?thesis by simp
  qed
qed

lemma uniqueChunks_keep_first: "uniqueChunks chunks = keep_first [] chunks"
  using unique_from[of "[]" chunks] by (simp add: uniqueChunks_def)

lemma keep_first_keys:
  "set (map (\<lambda>c. trim (chunk_text c)) (keep_first seen cs))
     = set (map (\<lambda>c. trim (chunk_text c)) cs) - set seen"
  by (induction cs arbitrary: seen) auto

lemma keep_first_distinct:
  "distinct (map (\<lambda>c. trim (chunk_text c)) (keep_first seen cs))"
proof (induction cs arbitrary: seen)
  case Nil
  then show ?case by simp
next
  case (Cons c cs)
  show ?case
    using Cons.IH keep_first_keys[of "trim (chunk_text c) # seen" cs]
    by auto
qed

lemma keep_first_find:
  "find (\<lambda>u. trim (chunk_text u) = k) (keep_first seen cs)
     = (if k \<in> set seen then None else find (\<lambda>u. trim (chunk_text u) = k) cs)"
proof (induction cs arbitrary: seen)
  case Nil
  then show ?case by simp
next
  case (Cons c cs)
  show ?case by (auto simp: Cons.IH)
qed

lemma distinct_map_filter_one:
  "distinct (map f xs) \<Longrightarrow> k \<in> set (map f xs) \<Longrightarrow> length (filter (\<lambda>u. f u = k) xs) = 1"
  by (induction xs) (auto simp: filter_empty_conv image_iff)

text \<open>
  The deduplication step keeps, of the chunks with one and the same trimmed text, exactly one,
  the first occurrence: the chunks that leave the step have pairwise different trimmed texts,
  and for every input chunk exactly one kept chunk has its trimmed text, the first chunk of the
  input with that text.
\<close>

lemma uniqueChunks_keeps_first_of_each:
  "distinct (map (\<lambda>c. trim (chunk_text c)) (uniqueChunks chunks))
   \<and> (\<forall>c\<in>set chunks.
        length (filter (\<lambda>u. trim (chunk_text u) = trim (chunk_text c)) (uniqueChunks chunks)) = 1
        \<and> find (\<lambda>u. trim (chunk_text u) = trim (chunk_text c)) (uniqueChunks chunks)
            = find (\<lambda>u. trim (chunk_text u) = trim (chunk_text c)) chunks)"
proof (intro conjI ballI)
  show "distinct (map (\<lambda>c. trim (chunk_text c)) (uniqueChunks chunks))"
    by (simp add: uniqueChunks_keep_first keep_first_distinct)
next
  fix c assume "c \<in> set chunks"
  then have "trim (chunk_text c) \<in> set (map (\<lambda>c. trim (chunk_text c)) (uniqueChunks chunks))"
    using keep_first_keys[of "[]" chunks] by (auto simp: uniqueChunks_keep_first)
  then show "length (filter (\<lambda>u. trim (chunk_text u) = trim (chunk_text c)) (uniqueChunks chunks)) = 1"
    using distinct_map_filter_one[of "\<lambda>c. trim (chunk_text c)" "uniqueChunks chunks"]
    by (simp add: uniqueChunks_keep_first keep_first_distinct)
next
  fix c
  show "find (\<lambda>u. trim (chunk_text u) = trim (chunk_text c)) (uniqueChunks chunks)
            = find (\<lambda>u. trim (chunk_text u) = trim (chunk_text c)) chunks"
    by (simp add: uniqueChunks_keep_first keep_first_find)
qed

lemma demo_unique:
  "uniqueChunks demo_chunks
     = [\<lparr>chunk_text = [97], startIndex = 0, endIndex = 1\<rparr>,
        \<lparr>chunk_text = [98], startIndex = 2, endIndex = 3\<rparr>]"
  by (simp add: uniqueChunks_def demo_chunks_def enumerate_eq_zip upt_rec trim_def is_ws_def)

lemma uniqueChunks_keeps_first_of_each_example:
  "\<lparr>chunk_text = [97], startIndex = 4, endIndex = 5\<rparr> \<in> set demo_chunks
   \<and> filter (\<lambda>u. trim (chunk_text u) = trim [97]) (uniqueChunks demo_chunks)
       = [\<lparr>chunk_text = [97], startIndex = 0, endIndex = 1\<rparr>]"
  using uniqueChunks_keeps_first_of_each[of demo_chunks]
  by (simp add: demo_unique) (simp add: demo_chunks_def trim_def is_ws_def)


















subsection \<open>Chunker\<close>

lemma index_of_aux_ge: "index_of_aux pat xs k = Some i \<Longrightarrow> k \<le> i"
proof (induction xs arbitrary: k)
  case Nil
  then show ?case by (simp split: if_splits)
next
  case (Cons c cs)
  then show ?case by (fastforce split: if_splits)
qed

lemma index_of_aux_found:
  "index_of_aux pat xs k = Some i \<Longrightarrow> take (length pat) (drop (i - k) xs) = pat"
proof (induction xs arbitrary: k)
  case Nil
  then show ?case by (simp split: if_splits)
next
  case (Cons c cs)
  show ?case
  proof (cases "take (length pat) (c # cs) = pat")
    case True
    with Cons.prems show ?thesis by simp
  next
    case False
    with Cons.prems have rest: "index_of_aux pat cs (Suc k) = Some i" by simp
    from index_of_aux_ge[OF rest] have "i - k = Suc (i - Suc k)" by simp
    with Cons.IH[OF rest] show ?thesis by simp
  qed
qed

lemma indexOf_ge: "pat \<noteq> [] \<Longrightarrow> indexOf s pat from = Some i \<Longrightarrow> from \<le> i"
  unfolding indexOf_def
  by (cases "from \<le> length s") (auto dest: index_of_aux_ge simp: min_def)

lemma indexOf_found:
  assumes "pat \<noteq> []" and "indexOf s pat from = Some i"
  shows "take (length pat) (drop i s) = pat"
proof (cases "from \<le> length s")
  case True
  with assms(2) have aux: "index_of_aux pat (drop from s) from = Some i"
    by (simp add: indexOf_def min_def)
  from index_of_aux_ge[OF aux] index_of_aux_found[OF aux] show ?thesis by simp
next
  case False
  with assms show ?thesis by (simp add: indexOf_def)
qed

lemma locate_chunks_bounds:
  "c \<in> set (locate_chunks s pieces cur) \<Longrightarrow> cur \<le> startIndex c \<and> startIndex c < endIndex c"
proof (induction pieces arbitrary: cur)
  case Nil
  then show ?case by simp
next
  case (Cons piece pieces)
  show ?case
  proof (cases "trim piece = []")
    case True
    with Cons show ?thesis by simp
  next
    case False
    show ?thesis
    proof (cases "indexOf s (trim piece) cur")
      case None
      with False Cons.prems Cons.IH[of "cur + length (trim piece)"]
      show ?thesis by (auto simp: Let_def)
    next
      case (Some i)
      from indexOf_ge[OF False Some] have "cur \<le> i" .
      with Some False Cons.prems Cons.IH[of "i + length (trim piece)"]
      show ?thesis by (auto simp: Let_def)
    qed
  qed
qed

lemma locate_chunks_disjoint:
  "sorted_wrt (\<lambda>a b. endIndex a \<le> startIndex b) (locate_chunks s pieces cur)"
proof (induction pieces arbitrary: cur)
  case Nil
  then show ?case by simp
next
  case (Cons piece pieces)
  show ?case
  proof (cases "trim piece = []")
    case True
    with Cons show ?thesis by simp
  next
    case False
    then show ?thesis
      using Cons.IH locate_chunks_bounds[of _ s pieces]
      by (cases "indexOf s (trim piece) cur") (auto simp: Let_def)
  qed
qed

text \<open>
  C6: whatever pieces the splitter returns (so in particular for every text and every options
  value with \<open>overlap < maxChunkSize\<close>), every chunk produced by \<open>chunkText\<close> has
  \<open>startIndex < endIndex\<close> and the chunks come in non-decreasing order of \<open>startIndex\<close>;
  indeed each chunk starts at or after the end of the one before it.
\<close>

theorem chunkText_indices_increase:
  assumes "chunkText splitText s options = Inr chunks"
  shows "(\<forall>c\<in>set chunks. startIndex c < endIndex c)
         \<and> sorted (map startIndex chunks)
         \<and> sorted_wrt (\<lambda>a b. endIndex a \<le> startIndex b) chunks"
proof -
  from assms obtain pieces where chunks: "chunks = locate_chunks s pieces 0"
    by (auto simp: chunkText_def bind_err_def split: sum.splits)
  have bounds: "\<forall>c\<in>set chunks. startIndex c < endIndex c"
    using locate_chunks_bounds[of _ s pieces 0] chunks by auto
  have disjoint: "sorted_wrt (\<lambda>a b. endIndex a \<le> startIndex b) chunks"
    using locate_chunks_disjoint chunks by simp
  have "sorted_wrt (\<lambda>a b. startIndex a \<le> startIndex b) chunks"
    using disjoint bounds
    by (rule_tac sorted_wrt_mono_rel[of chunks "\<lambda>a b. endIndex a \<le> startIndex b"]) force+
  then have "sorted (map startIndex chunks)"
    by (simp add: sorted_map)
  with bounds disjoint show ?thesis by simp
qed

theorem chunkText_indices_increase_witness:
  "chunkText demo_split [97, 98, 99, 98, 99] \<lparr>maxChunkSize = 500, overlap = 50\<rparr>
     = Inr [\<lparr>chunk_text = [97, 98], startIndex = 0, endIndex = 2\<rparr>,
            \<lparr>chunk_text = [98, 99], startIndex = 3, endIndex = 5\<rparr>]
   \<and> sorted (map startIndex [\<lparr>chunk_text = [97, 98], startIndex = 0, endIndex = 2\<rparr>,
            \<lparr>chunk_text = [98, 99], startIndex = 3, endIndex = 5\<rparr>])"
proof -
  have run: "chunkText demo_split [97, 98, 99, 98, 99] \<lparr>maxChunkSize = 500, overlap = 50\<rparr>
     = Inr [\<lparr>chunk_text = [97, 98], startIndex = 0, endIndex = 2\<rparr>,
            \<lparr>chunk_text = [98, 99], startIndex = 3, endIndex = 5\<rparr>]"
    by (simp add: chunkText_def demo_split_def trim_def is_ws_def indexOf_def)
  from chunkText_indices_increase[OF run] run show ?thesis by simp
qed

subsection \<open>Upload\<close>

text \<open>
  C7: once the document row is saved, if a later indexing step throws (deleting the old
  embeddings, chunking, embedding, saving the embeddings; cleaning cannot throw), the handler
  answers with status 200, \<open>success\<close> true, \<open>chunksIndexed\<close> 0 and the warning, not with a
  5xx response.
\<close>

theorem indexing_failure_is_partial_success:
  assumes saved: "save_document svc \<lparr>doc_id = new_uuid svc, doc_title = strip_extension filename,
                      doc_kind = str ''text'', doc_content = s, doc_userId = userId\<rparr> = Inr ()"
    and failure:
      "(\<exists>e. delete_embeddings svc (new_uuid svc) = Inl e)
       \<or> (\<exists>e. chunkText (split_text svc) s \<lparr>maxChunkSize = 500, overlap = 50\<rparr> = Inl e)
       \<or> (\<exists>chunks e. chunkText (split_text svc) s \<lparr>maxChunkSize = 500, overlap = 50\<rparr> = Inr chunks
             \<and> cleanedChunks (uniqueChunks chunks) \<noteq> []
             \<and> (embed_texts svc (map chunk_text (cleanedChunks (uniqueChunks chunks))) = Inl e
                \<or> (\<exists>embeddings.
                     embed_texts svc (map chunk_text (cleanedChunks (uniqueChunks chunks)))
                       = Inr embeddings
                     \<and> save_embeddings svc
                         (embedding_rows (new_uuid svc) (cleanedChunks (uniqueChunks chunks)) embeddings)
                       = Inl e)))"
  shows "(\<exists>detail.
           save_and_index svc userId filename s blobUrl
             = Uploaded \<lparr>up_success = True, up_documentId = new_uuid svc,
                 up_title = strip_extension filename, up_blobUrl = or_undefined blobUrl,
                 up_chunksIndexed = 0,
                 up_message = str ''Document uploaded but indexing failed'',
                 up_warning = Some (str ''Document was saved but could not be indexed for search''),
                 up_error = detail\<rparr>)
         \<and> response_status (save_and_index svc userId filename s blobUrl) = 200"
proof -
  have nonempty: "cleanedChunks u \<noteq> [] \<Longrightarrow> u \<noteq> []" for u
    by (auto simp: cleanedChunks_def)
  from failure have "\<exists>e. index_document svc s (new_uuid svc) (strip_extension filename) blobUrl = Inl e"
    unfolding index_document_def Let_def
    by (cases "delete_embeddings svc (new_uuid svc)") (auto dest: nonempty)
  then obtain e where e: "index_document svc s (new_uuid svc) (strip_extension filename) blobUrl = Inl e" ..
  have "\<exists>detail.
           save_and_index svc userId filename s blobUrl
             = Uploaded \<lparr>up_success = True, up_documentId = new_uuid svc,
                 up_title = strip_extension filename, up_blobUrl = or_undefined blobUrl,
                 up_chunksIndexed = 0,
                 up_message = str ''Document uploaded but indexing failed'',
                 up_warning = Some (str ''Document was saved but could not be indexed for search''),
                 up_error = detail\<rparr>"
    using saved e by (simp add: save_and_index_def Let_def)
  then show ?thesis by auto
qed

lemma index_document_success:
  assumes "index_document svc s docId title blobUrl = Inr response"
  shows "\<exists>body. response = Uploaded body \<and> up_success body"
proof (cases "delete_embeddings svc docId")
  case (Inl e)
  with assms show ?thesis by (simp add: index_document_def)
next
  case deleted: (Inr u)
  show ?thesis
  proof (cases "chunkText (split_text svc) s \<lparr>maxChunkSize = 500, overlap = 50\<rparr>")
    case (Inl e)
    with assms deleted show ?thesis by (simp add: index_document_def)
  next
    case chunked: (Inr chunks)
    show ?thesis
    proof (cases "uniqueChunks chunks = [] \<or> cleanedChunks (uniqueChunks chunks) = []")
      case True
      with assms deleted chunked show ?thesis
        by (auto simp: index_document_def Let_def split: if_splits)
    next
      case False
      show ?thesis
      proof (cases "embed_texts svc (map chunk_text (cleanedChunks (uniqueChunks chunks)))")
        case (Inl e)
        with assms deleted chunked False show ?thesis by (simp add: index_document_def Let_def)
      next
        case embedded: (Inr embeddings)
        show ?thesis
        proof (cases "save_embeddings svc
                 (embedding_rows docId (cleanedChunks (uniqueChunks chunks)) embeddings)")
          case (Inl e)
          with assms deleted chunked False embedded show ?thesis
            by (simp add: index_document_def Let_def)
        next
          case (Inr v)
          with assms deleted chunked False embedded show ?thesis
            by (auto simp: index_document_def Let_def)
        qed
      qed
    qed
  qed
qed

text \<open>Once the document is saved the handler answers with status 200, whatever follows.\<close>

lemma saved_document_never_hard_failure:
  assumes "save_document svc \<lparr>doc_id = new_uuid svc, doc_title = strip_extension filename,
              doc_kind = str ''text'', doc_content = s, doc_userId = userId\<rparr> = Inr ()"
  shows "\<exists>body. save_and_index svc userId filename s blobUrl = Uploaded body \<and> up_success body"
proof (cases "index_document svc s (new_uuid svc) (strip_extension filename) blobUrl")
  case (Inl e)
  with assms show ?thesis by (simp add: save_and_index_def Let_def)
next
  case (Inr response)
  from index_document_success[OF Inr] assms Inr show ?thesis
    by (auto simp: save_and_index_def Let_def)
qed

lemma demo_upload_reaches_indexing:
  "upload_POST (demo_upload embedder) demo_request
     = save_and_index (demo_upload embedder) [117, 49] [110, 46, 116, 120, 116]
         [97, 98, 99, 98, 99] None"
  by (simp add: upload_POST_def demo_request_def demo_upload_def endsWith_def str_def Let_def
        trim_def is_ws_def)

lemma demo_chunking:
  "chunkText demo_split [97, 98, 99, 98, 99] \<lparr>maxChunkSize = 500, overlap = 50\<rparr>
     = Inr [\<lparr>chunk_text = [97, 98], startIndex = 0, endIndex = 2\<rparr>,
            \<lparr>chunk_text = [98, 99], startIndex = 3, endIndex = 5\<rparr>]"
  by (simp add: chunkText_def demo_split_def trim_def is_ws_def indexOf_def)

lemma demo_cleaned:
  "cleanedChunks (uniqueChunks [\<lparr>chunk_text = [97, 98], startIndex = 0, endIndex = 2\<rparr>,
            \<lparr>chunk_text = [98, 99], startIndex = 3, endIndex = 5\<rparr>])
     = [\<lparr>chunk_text = [97, 98], startIndex = 0, endIndex = 2\<rparr>,
        \<lparr>chunk_text = [98, 99], startIndex = 3, endIndex = 5\<rparr>]"
  by (simp add: uniqueChunks_keep_first cleanedChunks_def clean_defs)

lemma demo_title: "strip_extension [110, 46, 116, 120, 116] = [110]"
  by (simp add: strip_extension_def)

theorem indexing_failure_is_partial_success_witness:
  "(\<exists>detail. upload_POST (demo_upload demo_embed_fails) demo_request
     = Uploaded \<lparr>up_success = True, up_documentId = [100, 49], up_title = [110],
         up_blobUrl = None, up_chunksIndexed = 0,
         up_message = str ''Document uploaded but indexing failed'',
         up_warning = Some (str ''Document was saved but could not be indexed for search''),
         up_error = detail\<rparr>)
   \<and> response_status (upload_POST (demo_upload demo_embed_fails) demo_request) = 200"
proof -
  let ?svc = "demo_upload demo_embed_fails"
  have saved: "save_document ?svc \<lparr>doc_id = new_uuid ?svc,
        doc_title = strip_extension [110, 46, 116, 120, 116],
        doc_kind = str ''text'', doc_content = [97, 98, 99, 98, 99], doc_userId = [117, 49]\<rparr> = Inr ()"
    by (simp add: demo_upload_def)
  have split: "split_text ?svc = demo_split" by (simp add: demo_upload_def)
  have failure: "\<exists>chunks e. chunkText (split_text ?svc) [97, 98, 99, 98, 99]
                \<lparr>maxChunkSize = 500, overlap = 50\<rparr> = Inr chunks
             \<and> cleanedChunks (uniqueChunks chunks) \<noteq> []
             \<and> (embed_texts ?svc (map chunk_text (cleanedChunks (uniqueChunks chunks))) = Inl e
                \<or> (\<exists>embeddings.
                     embed_texts ?svc (map chunk_text (cleanedChunks (uniqueChunks chunks)))
                       = Inr embeddings
                     \<and> save_embeddings ?svc
                         (embedding_rows (new_uuid ?svc) (cleanedChunks (uniqueChunks chunks)) embeddings)
                       = Inl e))"
    unfolding split demo_chunking
    by (simp add: demo_cleaned) (simp add: demo_upload_def demo_embed_fails_def)
  have id: "new_uuid ?svc = [100, 49]" by (simp add: demo_upload_def)
  from indexing_failure_is_partial_success[where svc = ?svc and userId = "[117, 49]"
         and filename = "[110, 46, 116, 120, 116]" and s = "[97, 98, 99, 98, 99]"
         and blobUrl = None, OF saved] failure
  show ?thesis
    unfolding demo_upload_reaches_indexing demo_title id
    by (simp add: or_undefined_def is_set_def)
qed

subsection \<open>Embedding batches\<close>

declare windows.simps [simp del]

declare embeddings_loop.simps [simp del]

lemma windows_Nil [simp]: "windows n [] = []"
  by (simp add: windows.simps)

lemma windows_step:
  "0 < n \<Longrightarrow> xs \<noteq> [] \<Longrightarrow> windows n xs = take n xs # windows n (drop n xs)"
  by (subst windows.simps) simp

lemma concat_windows: "0 < n \<Longrightarrow> concat (windows n xs) = xs"
proof (induction "length xs" arbitrary: xs rule: less_induct)
  case less
  show ?case
  proof (cases "xs = []")
    case True
    then show ?thesis by simp
  next
    case False
    with less.prems have "length (drop n xs) < length xs" by simp
    from less.hyps[OF this less.prems] False less.prems show ?thesis
      by (simp add: windows_step)
  qed
qed

lemma windows_sizes:
  "0 < n \<Longrightarrow> w \<in> set (windows n xs) \<Longrightarrow> 0 < length w \<and> length w \<le> n"
proof (induction "length xs" arbitrary: xs rule: less_induct)
  case less
  show ?case
  proof (cases "xs = []")
    case True
    with less.prems show ?thesis by simp
  next
    case False
    with less.prems have smaller: "length (drop n xs) < length xs" by simp
    from less.prems False have "w = take n xs \<or> w \<in> set (windows n (drop n xs))"
      by (simp add: windows_step)
    then show ?thesis
      using less.hyps[OF smaller less.prems(1)] False less.prems(1) by auto
  qed
qed

lemma windows_full:
  "0 < n \<Longrightarrow> Suc j < length (windows n xs) \<Longrightarrow> length (windows n xs ! j) = n"
proof (induction "length xs" arbitrary: xs j rule: less_induct)
  case less
  show ?case
  proof (cases "xs = []")
    case True
    with less.prems show ?thesis by simp
  next
    case False
    with less.prems have smaller: "length (drop n xs) < length xs" by simp
    have step: "windows n xs = take n xs # windows n (drop n xs)"
      using less.prems(1) False by (rule windows_step)
    show ?thesis
    proof (cases j)
      case 0
      with less.prems(2) step have "windows n (drop n xs) \<noteq> []" by auto
      then have "drop n xs \<noteq> []" by auto
      with 0 step show ?thesis by simp
    next
      case (Suc k)
      with less.prems(2) step have "Suc k < length (windows n (drop n xs))" by simp
      from less.hyps[OF smaller less.prems(1) this] Suc step show ?thesis by simp
    qed
  qed
qed

lemma windows_130:
  assumes "length xs = 130"
  shows "map length (windows 64 xs) = [64, 64, 2]"
proof -
  have a: "xs \<noteq> []" using assms by auto
  have b: "drop 64 xs \<noteq> []" using assms by auto
  have c: "drop 128 xs \<noteq> []" using assms by auto
  have w1: "windows 64 xs = take 64 xs # windows 64 (drop 64 xs)"
    by (rule windows_step[OF _ a]) simp
  have w2: "windows 64 (drop 64 xs) = take 64 (drop 64 xs) # windows 64 (drop 128 xs)"
    using windows_step[OF _ b, of 64] by simp
  have w3: "windows 64 (drop 128 xs) = take 64 (drop 128 xs) # windows 64 (drop 192 xs)"
    using windows_step[OF _ c, of 64] by simp
  have w4: "windows 64 (drop 192 xs) = []" using assms by simp
  show ?thesis
    unfolding w1 w2 w3 w4 using assms by simp
qed

lemma map_embedding_items:
  assumes "length items = length batch"
    and "\<forall>j<length batch. \<exists>fields. items ! j = JObj fields
            \<and> map_of fields ''embedding'' = Some (vec (batch ! j))"
  shows "map_embedding items = Inr (map vec batch)"
  using assms
proof (induction items arbitrary: batch)
  case Nil
  then show ?case by simp
next
  case (Cons item items)
  then obtain t rest where batch: "batch = t # rest" by (cases batch) auto
  from Cons.prems(2) batch obtain fields where
    "item = JObj fields" "map_of fields ''embedding'' = Some (vec t)"
    by fastforce
  moreover have "map_embedding items = Inr (map vec rest)"
  proof (rule Cons.IH)
    show "length items = length rest" using Cons.prems(1) batch by simp
    show "\<forall>j<length rest. \<exists>fields. items ! j = JObj fields
            \<and> map_of fields ''embedding'' = Some (vec (rest ! j))"
      using Cons.prems(2) batch by fastforce
  qed
  ultimately show ?case using batch by simp
qed

lemma embeddings_loop_batches:
  assumes endpoint: "\<And>sent batch. \<exists>response.
            endpoint sent (batch_request key batch) = Inr response \<and> in_order vec batch response"
  shows "embeddings_loop key endpoint texts i acc sent
           = (sent @ map (batch_request key) (windows BATCH_SIZE (drop i texts)),
              Inr (acc @ map vec (drop i texts)))"
proof (induction "length texts - i" arbitrary: i acc sent rule: less_induct)
  case less
  show ?case
  proof (cases "i < length texts")
    case False
    then show ?thesis by (subst embeddings_loop.simps) simp
  next
    case True
    let ?batch = "take BATCH_SIZE (drop i texts)"
    from endpoint[of sent ?batch] obtain response where
      r: "endpoint sent (batch_request key ?batch) = Inr response" "in_order vec ?batch response"
      by blast
    then obtain kvs items where
      body: "ok response" "body_json response = Inr (JObj kvs)"
        "map_of kvs ''data'' = Some (JArr items)" "length items = length ?batch"
        "\<forall>j<length ?batch. \<exists>fields. items ! j = JObj fields
              \<and> map_of fields ''embedding'' = Some (vec (?batch ! j))"
      unfolding in_order_def by blast
    have vectors: "map_embedding items = Inr (map vec ?batch)"
      using body(4,5) by (rule map_embedding_items)
    have smaller: "length texts - (i + BATCH_SIZE) < length texts - i"
      using True by (simp add: BATCH_SIZE_def)
    have ne: "drop i texts \<noteq> []" using True by simp
    have w: "windows BATCH_SIZE (drop i texts)
               = ?batch # windows BATCH_SIZE (drop (i + BATCH_SIZE) texts)"
      using windows_step[OF _ ne, of BATCH_SIZE] by (simp add: BATCH_SIZE_def add.commute)
    have v: "map vec (drop i texts) = map vec ?batch @ map vec (drop (i + BATCH_SIZE) texts)"
      by (metis add.commute append_take_drop_id drop_drop map_append)
    show ?thesis
      apply (subst embeddings_loop.simps)
      using True r(1) body(1,2,3) vectors
      apply (simp add: Let_def less.hyps[OF smaller] w v)
      done
  qed
qed

text \<open>
  C4: with the API key set and an endpoint that answers every batch with one vector per input
  in request order, \<open>generateEmbeddings\<close> sends one request per window of the partition of
  its input into consecutive windows of 64 (every window but the last holds exactly 64 texts,
  none is empty or larger), in order, and returns the vectors of all texts in input order. For
  130 texts these are 3 requests, of 64, 64 and 2 texts, and 130 vectors.
\<close>

theorem generateEmbeddings_batches:
  assumes "is_set apiKey"
    and "\<And>sent batch. \<exists>response.
            endpoint sent (batch_request (the apiKey) batch) = Inr response
            \<and> in_order vec batch response"
  shows "generateEmbeddings apiKey endpoint texts
           = (map (batch_request (the apiKey)) (windows BATCH_SIZE texts), Inr (map vec texts))
         \<and> concat (windows BATCH_SIZE texts) = texts
         \<and> (\<forall>w\<in>set (windows BATCH_SIZE texts). 0 < length w \<and> length w \<le> 64)
         \<and> (\<forall>j. Suc j < length (windows BATCH_SIZE texts) \<longrightarrow> length (windows BATCH_SIZE texts ! j) = 64)
         \<and> (length texts = 130 \<longrightarrow>
              map length (windows BATCH_SIZE texts) = [64, 64, 2]
              \<and> length (fst (generateEmbeddings apiKey endpoint texts)) = 3
              \<and> (\<exists>vectors. snd (generateEmbeddings apiKey endpoint texts) = Inr vectors
                    \<and> length vectors = 130))"
proof -
  have run: "generateEmbeddings apiKey endpoint texts
           = (map (batch_request (the apiKey)) (windows BATCH_SIZE texts), Inr (map vec texts))"
    using assms(1) embeddings_loop_batches[of endpoint "the apiKey" vec texts 0 "[]" "[]", OF assms(2)]
    by (simp add: generateEmbeddings_def)
  have pos: "0 < BATCH_SIZE" by (simp add: BATCH_SIZE_def)
  have sizes: "\<forall>w\<in>set (windows BATCH_SIZE texts). 0 < length w \<and> length w \<le> 64"
    using windows_sizes[OF pos, of _ texts] by (simp add: BATCH_SIZE_def)
  have full: "\<forall>j. Suc j < length (windows BATCH_SIZE texts) \<longrightarrow> length (windows BATCH_SIZE texts ! j) = 64"
    using windows_full[OF pos, of _ texts] by (simp add: BATCH_SIZE_def)
  have many: "length texts = 130 \<longrightarrow>
              map length (windows BATCH_SIZE texts) = [64, 64, 2]
              \<and> length (fst (generateEmbeddings apiKey endpoint texts)) = 3
              \<and> (\<exists>vectors. snd (generateEmbeddings apiKey endpoint texts) = Inr vectors
                    \<and> length vectors = 130)"
  proof
    assume len: "length texts = 130"
    from windows_130[OF len] have three: "map length (windows BATCH_SIZE texts) = [64, 64, 2]"
      by (simp add: BATCH_SIZE_def)
    then have "length (map length (windows BATCH_SIZE texts)) = 3" by simp
    then have "length (windows BATCH_SIZE texts) = 3" by simp
    with three len show "map length (windows BATCH_SIZE texts) = [64, 64, 2]
              \<and> length (fst (generateEmbeddings apiKey endpoint texts)) = 3
              \<and> (\<exists>vectors. snd (generateEmbeddings apiKey endpoint texts) = Inr vectors
                    \<and> length vectors = 130)"
      by (simp add: run)
  qed
  from run concat_windows[OF pos] sizes full many show ?thesis by blast
qed

lemma demo_endpoint_in_order:
  "\<exists>response. demo_endpoint sent (batch_request key batch) = Inr response
      \<and> in_order JStr batch response"
  by (simp add: demo_endpoint_def batch_request_def in_order_def)

theorem generateEmbeddings_batches_witness:
  "is_set (Some [107]) \<and> length demo_texts = 130
   \<and> map (\<lambda>request. case emb_input request of Batch batch \<Rightarrow> length batch | Single t \<Rightarrow> 1)
        (fst (generateEmbeddings (Some [107]) demo_endpoint demo_texts)) = [64, 64, 2]
   \<and> snd (generateEmbeddings (Some [107]) demo_endpoint demo_texts) = Inr (map JStr demo_texts)"
proof -
  have key: "is_set (Some [107])" by (simp add: is_set_def)
  have len: "length demo_texts = 130" by (simp add: demo_texts_def)
  from generateEmbeddings_batches[where apiKey = "Some [107]" and endpoint = demo_endpoint
         and vec = JStr and texts = demo_texts, OF key demo_endpoint_in_order] len
  have run: "generateEmbeddings (Some [107]) demo_endpoint demo_texts
           = (map (batch_request [107]) (windows BATCH_SIZE demo_texts), Inr (map JStr demo_texts))"
    and sizes: "map length (windows BATCH_SIZE demo_texts) = [64, 64, 2]"
    by simp_all
  have "map (\<lambda>request. case emb_input request of Batch batch \<Rightarrow> length batch | Single t \<Rightarrow> 1)
          (map (batch_request [107]) (windows BATCH_SIZE demo_texts))
        = map length (windows BATCH_SIZE demo_texts)"
    by (simp add: batch_request_def comp_def)
  with run sizes key len show ?thesis by simp
qed

end
